theory Spec2Isabelle
  imports Main "HOL-Library.Word"
begin

section \<open>Machine types and memory\<close>

text \<open>
  The target is a 32-bit ESP32: \<open>size_t\<close>, \<open>unsigned long\<close> and \<open>uint32_t\<close> are
  32-bit unsigned integers whose arithmetic wraps around. A buffer is the list of the bytes
  of its allocation; an access outside the allocation is undefined behaviour in C++ and is
  the value \<open>Inl OutOfBounds\<close> here.
\<close>

type_synonym byte = "8 word"
type_synonym size_t = "32 word"
type_synonym ulong = "32 word"

datatype fault = OutOfBounds

definition MAX_JPEG_SIZE :: size_t where
  "MAX_JPEG_SIZE = 100 * 1024"

definition peek :: "byte list \<Rightarrow> size_t \<Rightarrow> fault + byte" where
  "peek buffer k = (if unat k < length buffer then Inr (buffer ! unat k) else Inl OutOfBounds)"

text \<open>
  The test \<^verbatim>\<open>buffer[k] == 0xFF && buffer[k + 1] == m\<close>: the second byte is read only when
  the first one is \<open>0xFF\<close>.
\<close>

definition marker_at :: "byte list \<Rightarrow> size_t \<Rightarrow> byte \<Rightarrow> fault + bool" where
  "marker_at buffer k m =
     (case peek buffer k of
        Inl e \<Rightarrow> Inl e
      | Inr a \<Rightarrow>
          if a = 0xFF
          then (case peek buffer (k + 1) of Inl e \<Rightarrow> Inl e | Inr b \<Rightarrow> Inr (b = m))
          else Inr False)"

section \<open>findJpegFrame\<close>

lemma unat_succ_less: "(j :: size_t) < m \<Longrightarrow> unat (j + 1) = Suc (unat j)"
proof -
  assume "j < m"
  then have "unat j < unat m" by (simp add: word_less_nat_alt)
  moreover have "unat m < 2 ^ 32" using unsigned_less [of m] by simp
  ultimately have "unat j + unat (1 :: size_t) < 2 ^ LENGTH(32)" by simp
  then have "unat (j + 1) = unat j + unat (1 :: size_t)" by (simp only: unat_add_lem [THEN iffD1])
  then show ?thesis by simp
qed

text \<open>
  The inner loop \<^verbatim>\<open>for (size_t j = i + 2; j < len - 1; j++)\<close>, entered at \<open>j\<close>. The bound
  \<open>len - 1\<close> is computed on 32-bit words, as in the source.
\<close>

function findJpegFrame_inner :: "byte list \<Rightarrow> size_t \<Rightarrow> size_t \<Rightarrow> size_t \<Rightarrow> fault + size_t" where
  "findJpegFrame_inner buffer len i j =
     (if j < len - 1 then
        (case marker_at buffer j 0xD9 of
           Inl e \<Rightarrow> Inl e
         | Inr found \<Rightarrow>
             if found then Inr (j + 2 - i)
             else findJpegFrame_inner buffer len i (j + 1))
      else Inr 0)"
  by pat_completeness auto
termination
  by (relation "measure (\<lambda>(buffer, len, i, j). unat (len - 1) - unat j)")
     (auto simp: unat_succ_less word_less_nat_alt)

text \<open>
  The outer loop \<^verbatim>\<open>for (size_t i = 0; i < len - 1; i++)\<close>, entered at \<open>i\<close>. The result is
  the pair of the returned size and the value left in \<^verbatim>\<open>*frameStart\<close>.
\<close>

function findJpegFrame_outer :: "byte list \<Rightarrow> size_t \<Rightarrow> size_t \<Rightarrow> size_t \<Rightarrow> fault + (size_t \<times> size_t)" where
  "findJpegFrame_outer buffer len frameStart i =
     (if i < len - 1 then
        (case marker_at buffer i 0xD8 of
           Inl e \<Rightarrow> Inl e
         | Inr found \<Rightarrow>
             if found then
               (case findJpegFrame_inner buffer len i (i + 2) of
                  Inl e \<Rightarrow> Inl e
                | Inr sz \<Rightarrow> Inr (sz, i))
             else findJpegFrame_outer buffer len frameStart (i + 1))
      else Inr (0, frameStart))"
  by pat_completeness auto
termination
  by (relation "measure (\<lambda>(buffer, len, frameStart, i). unat (len - 1) - unat i)")
     (auto simp: unat_succ_less word_less_nat_alt)

declare findJpegFrame_inner.simps [simp del] findJpegFrame_outer.simps [simp del]

definition findJpegFrame :: "byte list \<Rightarrow> size_t \<Rightarrow> size_t \<Rightarrow> fault + (size_t \<times> size_t)" where
  "findJpegFrame buffer len frameStart = findJpegFrame_outer buffer len frameStart 0"

section \<open>The session state and its collaborators\<close>

text \<open>
  The globals of \<^verbatim>\<open>main.cpp\<close> that \<^verbatim>\<open>handleClient\<close> and \<^verbatim>\<open>loop\<close> use. \<open>client\<close> is the
  truth value of the global \<^verbatim>\<open>WiFiClient client\<close>; \<open>jpegBuffer\<close> is the allocation of
  \<open>MAX_JPEG_SIZE\<close> bytes that the pointer of that name refers to.
\<close>

record state =
  client :: bool
  jpegBuffer :: "byte list"
  jpegBufferPos :: size_t
  frameCount :: ulong
  lastStats :: ulong
  frameId :: "32 word"
  totalBytesReceived :: ulong
  decodeTimeMs :: ulong

text \<open>The result codes of the decoder library; only \<open>JDR_OK\<close> is tested by the source.\<close>

datatype JRESULT =
  JDR_OK | JDR_INTR | JDR_INP | JDR_MEM1 | JDR_MEM2 | JDR_PAR | JDR_FMT1 | JDR_FMT2 | JDR_FMT3

text \<open>
  What the external collaborators answer during one call of \<^verbatim>\<open>loop\<close>, in the order of the
  calls: \<^verbatim>\<open>client.connected()\<close> at the two tests of \<^verbatim>\<open>handleClient\<close> and at the test of
  \<^verbatim>\<open>loop\<close>, whether \<^verbatim>\<open>server.available()\<close> yields a client, \<^verbatim>\<open>client.available()\<close>, the
  bytes the connection holds for \<^verbatim>\<open>client.read\<close> (which takes at most the requested number
  of them, from the front), the decoder's result and the readings of \<^verbatim>\<open>millis()\<close>.
\<close>

record env =
  connected_entry :: bool
  server_available :: bool
  millis_accept :: ulong
  connected_check :: bool
  available :: int
  incoming :: "byte list"
  millis_decodeStart :: ulong
  drawJpg :: JRESULT
  millis_decodeEnd :: ulong
  millis_now :: ulong
  connected_loop :: bool

text \<open>Writing \<open>bs\<close> into an allocation at offset \<open>off\<close>.\<close>

definition write_bytes :: "byte list \<Rightarrow> nat \<Rightarrow> byte list \<Rightarrow> fault + byte list" where
  "write_bytes mem off bs =
     (if off + length bs \<le> length mem
      then Inr (take off mem @ bs @ drop (off + length bs) mem)
      else Inl OutOfBounds)"

text \<open>
  \<^verbatim>\<open>read(dst + off, n)\<close> on a connection holding the bytes \<open>pending\<close>: at most \<open>n\<close> bytes are
  copied, and their number is returned.
\<close>

definition client_read :: "byte list \<Rightarrow> byte list \<Rightarrow> size_t \<Rightarrow> size_t \<Rightarrow> fault + (int \<times> byte list)" where
  "client_read pending dst off n =
     (let bs = take (unat n) pending in
      case write_bytes dst (unat off) bs of
        Inl f \<Rightarrow> Inl f
      | Inr dst' \<Rightarrow> Inr (int (length bs), dst'))"

text \<open>The bytes at \<^verbatim>\<open>ptr + off\<close>, \<open>n\<close> of them, as the decoder is handed them.\<close>

definition read_bytes :: "byte list \<Rightarrow> size_t \<Rightarrow> size_t \<Rightarrow> fault + byte list" where
  "read_bytes mem off n =
     (if unat off + unat n \<le> length mem
      then Inr (take (unat n) (drop (unat off) mem))
      else Inl OutOfBounds)"

text \<open>\<^verbatim>\<open>memmove(mem + dst, mem + src, n)\<close> within one allocation.\<close>

definition memmove :: "byte list \<Rightarrow> size_t \<Rightarrow> size_t \<Rightarrow> size_t \<Rightarrow> fault + byte list" where
  "memmove mem dst src n =
     (if unat src + unat n \<le> length mem \<and> unat dst + unat n \<le> length mem
      then Inr (take (unat dst) mem @ take (unat n) (drop (unat src) mem)
                @ drop (unat dst + unat n) mem)
      else Inl OutOfBounds)"

section \<open>handleClient, phase by phase\<close>

text \<open>Lines 253-266: accept a new client when there is none, and reset the window.\<close>

definition accept_client :: "env \<Rightarrow> state \<Rightarrow> state" where
  "accept_client e s =
     (if \<not> client s \<or> \<not> connected_entry e then
        (let s1 = s\<lparr>client := server_available e\<rparr> in
         if client s1 then
           s1\<lparr>frameCount := 0, totalBytesReceived := 0, decodeTimeMs := 0,
              lastStats := millis_accept e, jpegBufferPos := 0\<rparr>
         else s1)
      else s)"

text \<open>Lines 272-283: read the available data into the JPEG buffer (the spec's append).\<close>

definition read_available :: "env \<Rightarrow> state \<Rightarrow> fault + state" where
  "read_available e s =
     (if available e > 0 then
        (let toRead = min (word_of_int (available e)) (MAX_JPEG_SIZE - jpegBufferPos s) in
         if toRead > 0 then
           (case client_read (incoming e) (jpegBuffer s) (jpegBufferPos s) toRead of
              Inl f \<Rightarrow> Inl f
            | Inr (bytesRead, mem) \<Rightarrow>
                if bytesRead > 0 then
                  Inr (s\<lparr>jpegBuffer := mem,
                         jpegBufferPos := jpegBufferPos s + word_of_int bytesRead,
                         totalBytesReceived := totalBytesReceived s + word_of_int bytesRead\<rparr>)
                else Inr (s\<lparr>jpegBuffer := mem\<rparr>))
         else Inr s)
      else Inr s)"

text \<open>
  The same lines, together with the bytes the connection still holds afterwards:
  \<^verbatim>\<open>client.read\<close> takes the bytes it returns from the front of the pending ones and leaves
  the others with the connection. The first component is \<open>read_available\<close>.
\<close>

definition read_available_io :: "env \<Rightarrow> state \<Rightarrow> fault + (state \<times> byte list)" where
  "read_available_io e s =
     (if available e > 0 then
        (let toRead = min (word_of_int (available e)) (MAX_JPEG_SIZE - jpegBufferPos s) in
         if toRead > 0 then
           (case client_read (incoming e) (jpegBuffer s) (jpegBufferPos s) toRead of
              Inl f \<Rightarrow> Inl f
            | Inr (bytesRead, mem) \<Rightarrow>
                if bytesRead > 0 then
                  Inr (s\<lparr>jpegBuffer := mem,
                         jpegBufferPos := jpegBufferPos s + word_of_int bytesRead,
                         totalBytesReceived := totalBytesReceived s + word_of_int bytesRead\<rparr>,
                       drop (nat bytesRead) (incoming e))
                else Inr (s\<lparr>jpegBuffer := mem\<rparr>, drop (nat bytesRead) (incoming e)))
         else Inr (s, incoming e))
      else Inr (s, incoming e))"

text \<open>Lines 305-312: remove the processed bytes \<open>[0, frameEnd)\<close> (the spec's compact).\<close>

definition compact :: "size_t \<Rightarrow> state \<Rightarrow> fault + state" where
  "compact frameEnd s =
     (if frameEnd < jpegBufferPos s then
        (case memmove (jpegBuffer s) 0 frameEnd (jpegBufferPos s - frameEnd) of
           Inl f \<Rightarrow> Inl f
         | Inr mem \<Rightarrow> Inr (s\<lparr>jpegBuffer := mem, jpegBufferPos := jpegBufferPos s - frameEnd\<rparr>))
      else Inr (s\<lparr>jpegBufferPos := 0\<rparr>))"

text \<open>Lines 296-303: account for one decode call and its result.\<close>

definition count_decoded :: "env \<Rightarrow> state \<Rightarrow> state" where
  "count_decoded e s =
     (let s1 = s\<lparr>decodeTimeMs := decodeTimeMs s + (millis_decodeEnd e - millis_decodeStart e)\<rparr>
      in if drawJpg e \<noteq> JDR_OK then s1
         else s1\<lparr>frameCount := frameCount s1 + 1, frameId := frameId s1 + 1\<rparr>)"

text \<open>The compaction performed twice in a row with the same \<open>frameEnd\<close>.\<close>

definition compact_twice :: "size_t \<Rightarrow> state \<Rightarrow> fault + state" where
  "compact_twice k s = (case compact k s of Inl f \<Rightarrow> Inl f | Inr s1 \<Rightarrow> compact k s1)"

text \<open>
  Lines 285-314: look for a complete frame, decode it, count it and remove it. The result
  carries the frame handed to the decoder, if any.
\<close>

definition decode_frame :: "env \<Rightarrow> state \<Rightarrow> fault + (byte list option \<times> state)" where
  "decode_frame e s =
     (if jpegBufferPos s \<ge> 4 then
        (case findJpegFrame (jpegBuffer s) (jpegBufferPos s) 0 of
           Inl f \<Rightarrow> Inl f
         | Inr (frameSize, frameStart) \<Rightarrow>
             if frameSize > 0 then
               (case read_bytes (jpegBuffer s) frameStart frameSize of
                  Inl f \<Rightarrow> Inl f
                | Inr frame \<Rightarrow>
                    (case compact (frameStart + frameSize) (count_decoded e s) of
                       Inl f \<Rightarrow> Inl f
                     | Inr s3 \<Rightarrow> Inr (Some frame, s3)))
             else Inr (None, s))
      else Inr (None, s))"

text \<open>Lines 316-320: the overflow check.\<close>

definition overflow_check :: "state \<Rightarrow> state" where
  "overflow_check s =
     (if jpegBufferPos s > MAX_JPEG_SIZE - 1024 then s\<lparr>jpegBufferPos := 0\<rparr> else s)"

text \<open>Lines 322-337: the statistics window (the printed line itself is not modelled).\<close>

definition print_stats :: "env \<Rightarrow> state \<Rightarrow> state" where
  "print_stats e s =
     (let now = millis_now e in
      if now - lastStats s \<ge> 2000 then
        s\<lparr>frameCount := 0, totalBytesReceived := 0, decodeTimeMs := 0, lastStats := now\<rparr>
      else s)"

text \<open>
  \<^verbatim>\<open>handleClient\<close>: its returned truth value, the frame handed to the decoder in this call
  (if any) and the state it leaves.
\<close>

definition handleClient :: "env \<Rightarrow> state \<Rightarrow> fault + (bool \<times> byte list option \<times> state)" where
  "handleClient e s =
     (let s1 = accept_client e s in
      if \<not> client s1 \<or> \<not> connected_check e then Inr (False, None, s1)
      else
        (case read_available e s1 of
           Inl f \<Rightarrow> Inl f
         | Inr s2 \<Rightarrow>
             (case decode_frame e s2 of
                Inl f \<Rightarrow> Inl f
              | Inr (fr, s3) \<Rightarrow> Inr (True, fr, print_stats e (overflow_check s3)))))"

text \<open>\<^verbatim>\<open>loop\<close>: one drive cycle.\<close>

definition loop :: "env \<Rightarrow> state \<Rightarrow> fault + (byte list option \<times> state)" where
  "loop e s =
     (case handleClient e s of
        Inl f \<Rightarrow> Inl f
      | Inr (r, fr, s1) \<Rightarrow>
          Inr (fr, if client s1 \<and> \<not> connected_loop e then s1\<lparr>jpegBufferPos := 0\<rparr> else s1))"

text \<open>Successive drive cycles, with the frames handed to the decoder in order.\<close>

fun run :: "env list \<Rightarrow> state \<Rightarrow> fault + (byte list list \<times> state)" where
  "run [] s = Inr ([], s)"
| "run (e # es) s =
     (case loop e s of
        Inl f \<Rightarrow> Inl f
      | Inr (fr, s1) \<Rightarrow>
          (case run es s1 of
             Inl f \<Rightarrow> Inl f
           | Inr (frs, s2) \<Rightarrow> Inr ((case fr of None \<Rightarrow> [] | Some f \<Rightarrow> [f]) @ frs, s2)))"

text \<open>The buffer invariant: the allocation has its size and the fill level is within it.\<close>

definition buffer_inv :: "state \<Rightarrow> bool" where
  "buffer_inv s \<longleftrightarrow>
     length (jpegBuffer s) = unat MAX_JPEG_SIZE \<and> jpegBufferPos s \<le> MAX_JPEG_SIZE"

text \<open>
  The allocation after \<^verbatim>\<open>memmove(mem, mem + fe, pos - fe)\<close>, which the source calls when
  \<open>fe < pos\<close>.
\<close>

definition shifted :: "byte list \<Rightarrow> nat \<Rightarrow> nat \<Rightarrow> byte list" where
  "shifted mem pos fe =
     (if fe < pos then take (pos - fe) (drop fe mem) @ drop (pos - fe) mem else mem)"

text \<open>
  The number of bytes one call of \<open>read_available\<close> copies: what is reported available,
  what is left of the capacity and what the connection holds, whichever is least.
\<close>

definition appended :: "env \<Rightarrow> state \<Rightarrow> nat" where
  "appended e s =
     (if available e > 0
      then min (unat (word_of_int (available e) :: size_t))
             (min (unat MAX_JPEG_SIZE - unat (jpegBufferPos s)) (length (incoming e)))
      else 0)"

text \<open>The unconsumed bytes: the first \<open>jpegBufferPos\<close> bytes of the buffer.\<close>

definition content :: "state \<Rightarrow> byte list" where
  "content s = take (unat (jpegBufferPos s)) (jpegBuffer s)"

text \<open>
  The globals as \<^verbatim>\<open>setup\<close> leaves them (the allocation is taken to hold zeros), and
  two environments for one drive cycle of a connected client with a working decoder: one
  in which nothing arrives and one in which the connection holds the bytes \<open>bs\<close>.
\<close>

definition initial :: state where
  "initial = \<lparr>client = False, jpegBuffer = replicate 102400 0, jpegBufferPos = 0,
     frameCount = 0, lastStats = 0, frameId = 0, totalBytesReceived = 0, decodeTimeMs = 0\<rparr>"

definition idle_env :: env where
  "idle_env = \<lparr>connected_entry = True, server_available = False, millis_accept = 0,
     connected_check = True, available = 0, incoming = [], millis_decodeStart = 0,
     drawJpg = JDR_OK, millis_decodeEnd = 0, millis_now = 0, connected_loop = True\<rparr>"

definition deliver :: "byte list \<Rightarrow> env" where
  "deliver bs = idle_env\<lparr>available := int (length bs), incoming := bs\<rparr>"

text \<open>The bytes \<open>bs\<close> delivered one per drive cycle.\<close>

definition bytewise :: "byte list \<Rightarrow> env list" where
  "bytewise bs = map (\<lambda>b. deliver [b]) bs"

text \<open>A frame of 101379 bytes: the two markers around 101375 zero bytes.\<close>

definition long_frame :: "byte list" where
  "long_frame = [0xFF, 0xD8] @ replicate 101375 0 @ [0xFF, 0xD9]"

section \<open>readExactly\<close>

text \<open>
  What the collaborators answer in one iteration of the loop of \<^verbatim>\<open>readExactly\<close>:
  \<^verbatim>\<open>c.connected()\<close>, \<^verbatim>\<open>millis()\<close> in the timeout test, \<^verbatim>\<open>c.available()\<close>, the bytes the
  connection holds for \<^verbatim>\<open>c.read\<close>, and \<^verbatim>\<open>millis()\<close> after a successful read.
\<close>

record read_obs =
  r_connected :: bool
  r_millis :: ulong
  r_available :: int
  r_incoming :: "byte list"
  r_millis_after :: ulong

definition timeout :: ulong where
  "timeout = 5000"

text \<open>
  The loop, entered with \<open>got\<close> and \<open>startTime\<close>, against a finite script of observations.
  \<open>None\<close>: the loop is still running when the script ends. Otherwise the returned truth
  value, the final \<open>got\<close> and the destination buffer.
\<close>

fun readExactly_loop ::
  "read_obs list \<Rightarrow> size_t \<Rightarrow> byte list \<Rightarrow> size_t \<Rightarrow> ulong
     \<Rightarrow> (fault + (bool \<times> size_t \<times> byte list)) option" where
  "readExactly_loop [] len dst got startTime =
     (if got < len then None else Some (Inr (got = len, got, dst)))"
| "readExactly_loop (ob # obs) len dst got startTime =
     (if got < len \<and> r_connected ob then
        (if r_millis ob - startTime > timeout then Some (Inr (False, got, dst))
         else if r_available ob > 0 then
           (let toRead = min (word_of_int (r_available ob)) (len - got) in
            case client_read (r_incoming ob) dst got toRead of
              Inl f \<Rightarrow> Some (Inl f)
            | Inr (chunk, dst') \<Rightarrow>
                if chunk > 0 then
                  readExactly_loop obs len dst' (got + word_of_int chunk) (r_millis_after ob)
                else readExactly_loop obs len dst' got startTime)
         else readExactly_loop obs len dst got startTime)
      else Some (Inr (got = len, got, dst)))"

text \<open>\<^verbatim>\<open>readExactly\<close>, with \<open>t0\<close> the first reading of \<^verbatim>\<open>millis()\<close>.\<close>

definition readExactly ::
  "read_obs list \<Rightarrow> ulong \<Rightarrow> byte list \<Rightarrow> size_t
     \<Rightarrow> (fault + (bool \<times> size_t \<times> byte list)) option" where
  "readExactly obs t0 dst len = readExactly_loop obs len dst 0 t0"

text \<open>
  An iteration that reads nothing and does not end the loop: the connection is up, the
  guard has not expired, and no byte is delivered.
\<close>

definition quiet :: "ulong \<Rightarrow> read_obs \<Rightarrow> bool" where
  "quiet startTime ob \<longleftrightarrow>
     r_connected ob \<and> \<not> r_millis ob - startTime > timeout \<and>
     (r_available ob \<le> 0 \<or> r_incoming ob = [])"

text \<open>An observation at clock \<open>t\<close> of a connection that holds the bytes \<open>bs\<close>.\<close>

definition observe :: "bool \<Rightarrow> ulong \<Rightarrow> byte list \<Rightarrow> read_obs" where
  "observe c t bs = \<lparr>r_connected = c, r_millis = t, r_available = int (length bs),
     r_incoming = bs, r_millis_after = t\<rparr>"

text \<open>
  The bytes one iteration can take from the connection: the first \<^verbatim>\<open>available()\<close> of those
  the connection holds, and none when \<^verbatim>\<open>available()\<close> is not positive.
\<close>

definition offered :: "read_obs \<Rightarrow> byte list" where
  "offered ob = (if r_available ob > 0 then take (nat (r_available ob)) (r_incoming ob) else [])"

text \<open>
  A script during which the guard never expires: every iteration finds the clock at most
  \<open>timeout\<close> past \<open>startTime\<close>, where \<open>startTime\<close> moves to the clock after the read in
  each iteration that is offered a byte. The second function is \<open>startTime\<close> after such a
  script.
\<close>

fun timely :: "ulong \<Rightarrow> read_obs list \<Rightarrow> bool" where
  "timely startTime [] = True"
| "timely startTime (ob # obs) =
     (\<not> r_millis ob - startTime > timeout \<and>
      timely (if offered ob \<noteq> [] then r_millis_after ob else startTime) obs)"

fun end_time :: "ulong \<Rightarrow> read_obs list \<Rightarrow> ulong" where
  "end_time startTime [] = startTime"
| "end_time startTime (ob # obs) =
     end_time (if offered ob \<noteq> [] then r_millis_after ob else startTime) obs"

section \<open>The scanner as the specification words it\<close>

text \<open>
  The index of the first occurrence of the two bytes \<open>0xFF m\<close> in a byte sequence, and the
  specification's scan: the first start marker at \<open>i\<close>, then the first end marker at
  \<open>j \<ge> i + 2\<close>. These follow the specification; they are compared with
  \<open>findJpegFrame\<close> below.
\<close>

fun spec_find_marker :: "byte \<Rightarrow> byte list \<Rightarrow> nat option" where
  "spec_find_marker m (a # b # xs) =
     (if a = 0xFF \<and> b = m then Some 0
      else map_option Suc (spec_find_marker m (b # xs)))"
| "spec_find_marker m xs = None"

text \<open>The two bytes \<open>0xFF m\<close> stand at index \<open>k\<close> within the first \<open>len\<close> bytes.\<close>

definition marker_in :: "byte list \<Rightarrow> size_t \<Rightarrow> byte \<Rightarrow> nat \<Rightarrow> bool" where
  "marker_in buffer len m k \<longleftrightarrow>
     k + 1 < unat len \<and> buffer ! k = 0xFF \<and> buffer ! (k + 1) = m"

definition spec_scan :: "byte list \<Rightarrow> (nat \<times> nat) option" where
  "spec_scan xs =
     (case spec_find_marker 0xD8 xs of
        None \<Rightarrow> None
      | Some i \<Rightarrow>
          (case spec_find_marker 0xD9 (drop (i + 2) xs) of
             None \<Rightarrow> None
           | Some k \<Rightarrow> Some (i, i + 2 + k)))"

section \<open>Drive cycles on the unconsumed bytes\<close>

text \<open>
  A drive cycle of a connected client whose connection reports as available the bytes it
  holds.
\<close>

definition steady :: "env \<Rightarrow> bool" where
  "steady e \<longleftrightarrow>
     connected_entry e \<and> connected_check e \<and> connected_loop e \<and>
     available e = int (length (incoming e)) \<and> length (incoming e) < 2 ^ 31"

text \<open>
  One drive cycle of a connected client, on the unconsumed bytes \<open>c\<close> and the bytes \<open>inc\<close>
  the connection holds: append what fits, extract the first complete frame if there is
  one, reset on overflow. The result is the frame handed to the decoder and the
  unconsumed bytes left. It is compared with \<open>loop\<close> below.
\<close>

definition spec_cycle :: "byte list \<Rightarrow> byte list \<Rightarrow> byte list option \<times> byte list" where
  "spec_cycle c inc =
     (let c1 = c @ take (unat MAX_JPEG_SIZE - length c) inc;
          (fr, c2) = (case spec_scan c1 of
                        None \<Rightarrow> (None, c1)
                      | Some (i, j) \<Rightarrow> (Some (take (j + 2 - i) (drop i c1)), drop (j + 2) c1))
      in (fr, if length c2 > unat MAX_JPEG_SIZE - 1024 then [] else c2))"

text \<open>Successive cycles: the frames in order and the unconsumed bytes left.\<close>

fun spec_run :: "byte list list \<Rightarrow> byte list \<Rightarrow> byte list list \<times> byte list" where
  "spec_run [] c = ([], c)"
| "spec_run (inc # incs) c =
     (case spec_cycle c inc of
        (fr, c1) \<Rightarrow>
          (case spec_run incs c1 of
             (frs, c2) \<Rightarrow> ((case fr of None \<Rightarrow> [] | Some f \<Rightarrow> [f]) @ frs, c2)))"

section \<open>The scanner refines the specification's scan\<close>

lemma drop_two: "k + 1 < length xs \<Longrightarrow> drop k xs = xs ! k # xs ! (k + 1) # drop (k + 2) xs"
  by (metis Cons_nth_drop_Suc Suc_eq_plus1 Suc_lessD add_2_eq_Suc')

lemma spec_find_marker_short: "length xs \<le> 1 \<Longrightarrow> spec_find_marker m xs = None"
  by (cases xs; cases "tl xs") auto

lemma unat_len_pred: "(len :: size_t) \<noteq> 0 \<Longrightarrow> unat (len - 1) = unat len - 1"
  by (simp add: unat_minus_one)

lemma marker_at_in_range:
  assumes "unat k + 1 < length buffer" "k < m'"
  shows "marker_at buffer k m = Inr (buffer ! unat k = 0xFF \<and> buffer ! (unat k + 1) = m)"
  using assms by (auto simp: marker_at_def peek_def unat_succ_less)

lemma inner_refines:
  assumes "unat len \<le> length buffer" "len \<noteq> 0"
  shows "unat j \<le> unat len \<Longrightarrow> findJpegFrame_inner buffer len i j =
     Inr (case spec_find_marker 0xD9 (drop (unat j) (take (unat len) buffer)) of
            None \<Rightarrow> 0 | Some k \<Rightarrow> j + of_nat k + 2 - i)"
  using assms
proof (induction buffer len i j rule: findJpegFrame_inner.induct)
  case (1 buffer len i j)
  let ?xs = "take (unat len) buffer"
  show ?case
  proof (cases "j < len - 1")
    case True
    then have lt: "unat j + 1 < unat len"
      using 1 by (simp add: word_less_nat_alt unat_len_pred) 
    then have lt': "unat j + 1 < length ?xs" using 1 by simp
    have sj: "unat (j + 1) = Suc (unat j)" using True by (rule unat_succ_less)
    have m: "marker_at buffer j 0xD9 = Inr (?xs ! unat j = 0xFF \<and> ?xs ! (unat j + 1) = 0xD9)"
      using marker_at_in_range [of j buffer "len - 1" "0xD9"] lt 1 True by simp
    have d: "drop (unat j) ?xs = ?xs ! unat j # ?xs ! (unat j + 1) # drop (unat j + 2) ?xs"
      using lt' by (rule drop_two)
    show ?thesis
    proof (cases "?xs ! unat j = 0xFF \<and> ?xs ! (unat j + 1) = 0xD9")
      case found: True
      then show ?thesis
        using True m d by (simp add: findJpegFrame_inner.simps [of buffer len i j])
    next
      case nf: False
      have d': "drop (unat (j + 1)) ?xs = ?xs ! (unat j + 1) # drop (unat j + 2) ?xs"
        using d sj by (metis Suc_eq_plus1 drop_Suc list.sel(3) tl_drop)
      have ih: "findJpegFrame_inner buffer len i (j + 1) =
          Inr (case spec_find_marker 0xD9 (drop (unat (j + 1)) ?xs) of
            None \<Rightarrow> 0 | Some k \<Rightarrow> j + 1 + of_nat k + 2 - i)"
        using "1.IH" [OF True m [unfolded nf [THEN eq_False [THEN iffD2]]]] nf m sj lt 1 by simp
      show ?thesis
        using True m nf ih d d'
        by (auto simp add: findJpegFrame_inner.simps [of buffer len i j] split: option.splits)
    qed
  next
    case False
    then have "unat len - 1 \<le> unat j" using 1 by (simp add: word_less_nat_alt unat_len_pred)
    then have "length (drop (unat j) ?xs) \<le> 1" using 1 by simp
    then have "spec_find_marker 0xD9 (drop (unat j) ?xs) = None" by (rule spec_find_marker_short)
    then show ?thesis using False by (simp add: findJpegFrame_inner.simps [of buffer len i j])
  qed
qed

lemma spec_find_marker_bound: "spec_find_marker m xs = Some k \<Longrightarrow> k + 2 \<le> length xs"
  by (induction m xs arbitrary: k rule: spec_find_marker.induct) (auto split: if_splits)

lemma outer_refines:
  assumes "unat len \<le> length buffer" "len \<noteq> 0"
  shows "unat i \<le> unat len \<Longrightarrow> findJpegFrame_outer buffer len frameStart i =
     Inr (case spec_find_marker 0xD8 (drop (unat i) (take (unat len) buffer)) of
            None \<Rightarrow> (0, frameStart)
          | Some k \<Rightarrow>
              (case spec_find_marker 0xD9 (drop (unat i + k + 2) (take (unat len) buffer)) of
                 None \<Rightarrow> (0, i + of_nat k)
               | Some k2 \<Rightarrow> (of_nat k2 + 4, i + of_nat k)))"
  using assms
proof (induction buffer len frameStart i rule: findJpegFrame_outer.induct)
  case (1 buffer len frameStart i)
  let ?xs = "take (unat len) buffer"
  show ?case
  proof (cases "i < len - 1")
    case True
    then have lt: "unat i + 1 < unat len"
      using 1 by (simp add: word_less_nat_alt unat_len_pred) 
    then have lt': "unat i + 1 < length ?xs" using 1 by simp
    have sj: "unat (i + 1) = Suc (unat i)" using True by (rule unat_succ_less)
    have m: "marker_at buffer i 0xD8 = Inr (?xs ! unat i = 0xFF \<and> ?xs ! (unat i + 1) = 0xD8)"
      using marker_at_in_range [of i buffer "len - 1" "0xD8"] lt 1 True by simp
    have d: "drop (unat i) ?xs = ?xs ! unat i # ?xs ! (unat i + 1) # drop (unat i + 2) ?xs"
      using lt' by (rule drop_two)
    show ?thesis
    proof (cases "?xs ! unat i = 0xFF \<and> ?xs ! (unat i + 1) = 0xD8")
      case found: True
      have u2: "unat (i + 2) = unat i + 2"
      proof -
        have "unat len < 2 ^ 32" using unsigned_less [of len, where 'a = nat] by simp
        then have "unat i + unat (2 :: size_t) < 2 ^ LENGTH(32)" using lt by simp
        then have "unat (i + 2) = unat i + unat (2 :: size_t)"
          by (simp only: unat_add_lem [THEN iffD1])
        then show ?thesis by simp
      qed
      have inner: "findJpegFrame_inner buffer len i (i + 2) =
         Inr (case spec_find_marker 0xD9 (drop (unat (i + 2)) ?xs) of
            None \<Rightarrow> 0 | Some k \<Rightarrow> i + 2 + of_nat k + 2 - i)"
        using inner_refines [of len buffer "i + 2" i] 1 lt u2 by simp
      show ?thesis
        using True m d found inner u2
        by (simp add: findJpegFrame_outer.simps [of buffer len frameStart i] split: option.splits)
    next
      case nf: False
      have d': "drop (unat (i + 1)) ?xs = ?xs ! (unat i + 1) # drop (unat i + 2) ?xs"
        using d sj by (metis Suc_eq_plus1 drop_Suc list.sel(3) tl_drop)
      have ih: "findJpegFrame_outer buffer len frameStart (i + 1) =
          Inr (case spec_find_marker 0xD8 (drop (unat (i + 1)) ?xs) of
            None \<Rightarrow> (0, frameStart)
          | Some k \<Rightarrow>
              (case spec_find_marker 0xD9 (drop (unat (i + 1) + k + 2) ?xs) of
                 None \<Rightarrow> (0, i + 1 + of_nat k)
               | Some k2 \<Rightarrow> (of_nat k2 + 4, i + 1 + of_nat k)))"
        using "1.IH" [OF True m [unfolded nf [THEN eq_False [THEN iffD2]]]] nf m sj lt 1 by simp
      show ?thesis
        using True m nf ih d d' sj
        by (auto simp add: findJpegFrame_outer.simps [of buffer len frameStart i] split: option.splits)
    qed
  next
    case False
    then have "unat len - 1 \<le> unat i" using 1 by (simp add: word_less_nat_alt unat_len_pred)
    then have "length (drop (unat i) ?xs) \<le> 1" using 1 by simp
    then have "spec_find_marker 0xD8 (drop (unat i) ?xs) = None" by (rule spec_find_marker_short)
    then show ?thesis using False by (simp add: findJpegFrame_outer.simps [of buffer len frameStart i])
  qed
qed

lemma findJpegFrame_refines:
  assumes "unat len \<le> length buffer" "len \<noteq> 0"
  shows "findJpegFrame buffer len frameStart =
     Inr (case spec_find_marker 0xD8 (take (unat len) buffer) of
            None \<Rightarrow> (0, frameStart)
          | Some i \<Rightarrow>
              (case spec_find_marker 0xD9 (drop (i + 2) (take (unat len) buffer)) of
                 None \<Rightarrow> (0, of_nat i)
               | Some k \<Rightarrow> (of_nat k + 4, of_nat i)))"
  using outer_refines [OF assms, of 0 frameStart]
  by (simp add: findJpegFrame_def cong: option.case_cong)

lemma spec_find_marker_Some:
  "spec_find_marker m xs = Some i \<longleftrightarrow>
     i + 1 < length xs \<and> xs ! i = 0xFF \<and> xs ! (i + 1) = m \<and>
     (\<forall>k<i. \<not> (xs ! k = 0xFF \<and> xs ! (k + 1) = m))"
proof (induction m xs arbitrary: i rule: spec_find_marker.induct)
  case (1 m a b xs)
  show ?case
  proof (cases "a = 0xFF \<and> b = m")
    case True
    show ?thesis
    proof (cases i)
      case 0
      then show ?thesis using True by simp
    next
      case (Suc i')
      have "\<not> (\<forall>k<Suc i'. \<not> ((a # b # xs) ! k = 0xFF \<and> (a # b # xs) ! (k + 1) = m))"
        using True by (auto intro!: exI [of _ 0])
      then show ?thesis using True Suc by simp
    qed
  next
    case False
    show ?thesis
    proof (cases i)
      case 0
      then show ?thesis using False by auto
    next
      case (Suc i')
      have "(\<forall>k<Suc i'. \<not> ((a # b # xs) ! k = 0xFF \<and> (a # b # xs) ! (k + 1) = m))
        \<longleftrightarrow> (\<forall>k<i'. \<not> ((b # xs) ! k = 0xFF \<and> (b # xs) ! (k + 1) = m))"
        (is "?L \<longleftrightarrow> ?R")
      proof
        assume l: ?L
        show ?R
        proof (intro allI impI)
          fix k assume "k < i'"
          then have "Suc k < Suc i'" by simp
          with l have "\<not> ((a # b # xs) ! Suc k = 0xFF \<and> (a # b # xs) ! (Suc k + 1) = m)" by blast
          then show "\<not> ((b # xs) ! k = 0xFF \<and> (b # xs) ! (k + 1) = m)" by simp
        qed
      next
        assume r: ?R
        show ?L
        proof (intro allI impI)
          fix k assume k: "k < Suc i'"
          show "\<not> ((a # b # xs) ! k = 0xFF \<and> (a # b # xs) ! (k + 1) = m)"
          proof (cases k)
            case 0
            then show ?thesis using False by simp
          next
            case (Suc k')
            then have "k' < i'" using k by simp
            with r have "\<not> ((b # xs) ! k' = 0xFF \<and> (b # xs) ! (k' + 1) = m)" by blast
            then show ?thesis using Suc by simp
          qed
        qed
      qed
      moreover have "spec_find_marker m (a # b # xs) = Some (Suc i') \<longleftrightarrow>
          spec_find_marker m (b # xs) = Some i'"
        using False by auto
      ultimately show ?thesis using Suc 1 [OF False, of i'] by simp
    qed
  qed
qed simp_all


lemma spec_find_marker_hit:
  "k + 1 < length xs \<Longrightarrow> xs ! k = 0xFF \<Longrightarrow> xs ! (k + 1) = m
     \<Longrightarrow> \<exists>i\<le>k. spec_find_marker m xs = Some i"
proof (induction m xs arbitrary: k rule: spec_find_marker.induct)
  case (1 m a b xs)
  show ?case
  proof (cases "a = 0xFF \<and> b = m")
    case True
    then show ?thesis by simp
  next
    case False
    then obtain k' where k': "k = Suc k'" using 1(3,4) by (cases k) auto
    have "\<exists>i\<le>k'. spec_find_marker m (b # xs) = Some i"
      using 1(1) [OF False, of k'] 1(2-4) k' by simp
    then obtain i where "i \<le> k'" "spec_find_marker m (b # xs) = Some i" by blast
    then have "Suc i \<le> k \<and> spec_find_marker m (a # b # xs) = Some (Suc i)"
      using False k' by auto
    then show ?thesis by blast
  qed
qed simp_all

lemma spec_find_marker_None:
  "spec_find_marker m xs = None \<longleftrightarrow>
     (\<forall>k. k + 1 < length xs \<longrightarrow> \<not> (xs ! k = 0xFF \<and> xs ! (k + 1) = m))"
proof
  assume n: "spec_find_marker m xs = None"
  show "\<forall>k. k + 1 < length xs \<longrightarrow> \<not> (xs ! k = 0xFF \<and> xs ! (k + 1) = m)"
  proof (intro allI impI notI)
    fix k assume k: "k + 1 < length xs" "xs ! k = 0xFF \<and> xs ! (k + 1) = m"
    then have "\<exists>i\<le>k. spec_find_marker m xs = Some i"
      using spec_find_marker_hit [of k xs m] by blast
    then show False using n by simp
  qed
next
  assume a: "\<forall>k. k + 1 < length xs \<longrightarrow> \<not> (xs ! k = 0xFF \<and> xs ! (k + 1) = m)"
  show "spec_find_marker m xs = None"
  proof (cases "spec_find_marker m xs")
    case None
    then show ?thesis .
  next
    case (Some i)
    then have "i + 1 < length xs \<and> xs ! i = 0xFF \<and> xs ! (i + 1) = m"
      using spec_find_marker_Some [of m xs i] by blast
    with a show ?thesis by blast
  qed
qed

section \<open>What the scanner returns\<close>

lemma marker_in_take:
  assumes "unat len \<le> length buffer"
  shows "marker_in buffer len m k \<longleftrightarrow>
     k + 1 < length (take (unat len) buffer) \<and> take (unat len) buffer ! k = 0xFF \<and>
     take (unat len) buffer ! (k + 1) = m"
  using assms by (auto simp: marker_in_def)

lemma marker_in_drop:
  assumes "unat len \<le> length buffer"
  shows "marker_in buffer len m (d + k) \<longleftrightarrow>
     k + 1 < length (drop d (take (unat len) buffer)) \<and>
     drop d (take (unat len) buffer) ! k = 0xFF \<and>
     drop d (take (unat len) buffer) ! (k + 1) = m"
  using assms by (auto simp: marker_in_def add.assoc)

text \<open>
  Claim C1. When the first \<open>len\<close> bytes of a buffer hold a start marker \<open>0xFF 0xD8\<close> at
  some index \<open>i0\<close> and an end marker \<open>0xFF 0xD9\<close> at some index \<open>j0 > i0\<close>, then
  \<open>findJpegFrame\<close> sets \<^verbatim>\<open>*frameStart\<close> to the index \<open>i\<close> of the first start marker and
  returns \<open>j + 2 - i\<close> for the first end marker at \<open>j \<ge> i + 2\<close>: the range \<open>[i, j + 2)\<close>,
  whatever bytes precede \<open>i\<close>.
\<close>

theorem findJpegFrame_first_frame:
  assumes len: "unat len \<le> length buffer"
      and soi: "marker_in buffer len 0xD8 i0"
      and eoi: "marker_in buffer len 0xD9 j0"
      and lt: "i0 < j0"
  shows "\<exists>i j. i \<le> i0 \<and> i + 2 \<le> j \<and> j \<le> j0 \<and> j + 2 \<le> unat len \<and>
           marker_in buffer len 0xD8 i \<and> (\<forall>k<i. \<not> marker_in buffer len 0xD8 k) \<and>
           marker_in buffer len 0xD9 j \<and>
           (\<forall>k. i + 2 \<le> k \<and> k < j \<longrightarrow> \<not> marker_in buffer len 0xD9 k) \<and>
           findJpegFrame buffer len frameStart = Inr (of_nat (j + 2 - i), of_nat i)"
proof -
  let ?xs = "take (unat len) buffer"
  have nz: "len \<noteq> 0" using soi by (auto simp: marker_in_def)
  have "\<exists>i\<le>i0. spec_find_marker 0xD8 ?xs = Some i"
    using soi spec_find_marker_hit [of i0 ?xs "0xD8"] by (simp add: marker_in_take [OF len])
  then obtain i where i: "i \<le> i0" "spec_find_marker 0xD8 ?xs = Some i" by blast
  have i_soi: "marker_in buffer len 0xD8 i"
    using i(2) spec_find_marker_Some [of "0xD8" ?xs i] by (simp add: marker_in_take [OF len])
  have i_first: "\<forall>k<i. \<not> marker_in buffer len 0xD8 k"
  proof (intro allI impI)
    fix k assume "k < i"
    then have "\<not> (?xs ! k = 0xFF \<and> ?xs ! (k + 1) = 0xD8)"
      using i(2) spec_find_marker_Some [of "0xD8" ?xs i] by blast
    then show "\<not> marker_in buffer len 0xD8 k" by (simp add: marker_in_take [OF len])
  qed
  have "j0 \<noteq> i + 1" using i_soi eoi by (auto simp: marker_in_def)
  then have j0: "i + 2 \<le> j0" using i(1) lt by simp
  then obtain d where d: "j0 = (i + 2) + d" using le_Suc_ex by blast
  have "\<exists>k\<le>d. spec_find_marker 0xD9 (drop (i + 2) ?xs) = Some k"
    using eoi spec_find_marker_hit [of d "drop (i + 2) ?xs" "0xD9"]
    unfolding d marker_in_drop [OF len] by blast
  then obtain k where k: "k \<le> d" "spec_find_marker 0xD9 (drop (i + 2) ?xs) = Some k" by blast
  have j_eoi: "marker_in buffer len 0xD9 ((i + 2) + k)"
    using k(2) spec_find_marker_Some [of "0xD9" "drop (i + 2) ?xs" k]
    unfolding marker_in_drop [OF len] by blast
  have j_first: "\<forall>k'. i + 2 \<le> k' \<and> k' < (i + 2) + k \<longrightarrow> \<not> marker_in buffer len 0xD9 k'"
  proof (intro allI impI)
    fix k' assume a: "i + 2 \<le> k' \<and> k' < (i + 2) + k"
    then obtain e where e: "k' = (i + 2) + e" using le_Suc_ex by blast
    then have "e < k" using a by simp
    then have "\<not> (drop (i + 2) ?xs ! e = 0xFF \<and> drop (i + 2) ?xs ! (e + 1) = 0xD9)"
      using k(2) spec_find_marker_Some [of "0xD9" "drop (i + 2) ?xs" k] by blast
    then show "\<not> marker_in buffer len 0xD9 k'"
      unfolding e marker_in_drop [OF len] by blast
  qed
  have bound: "(i + 2) + k + 2 \<le> unat len" using j_eoi by (simp add: marker_in_def)
  have res: "findJpegFrame buffer len frameStart = Inr (of_nat k + 4, of_nat i)"
    using findJpegFrame_refines [OF len nz, of frameStart] i(2) k(2) by simp
  have "(of_nat k + 4 :: size_t) = of_nat ((i + 2) + k + 2 - i)" by simp
  with res have res': "findJpegFrame buffer len frameStart =
      Inr (of_nat ((i + 2) + k + 2 - i), of_nat i)" by simp
  have "i \<le> i0 \<and> i + 2 \<le> (i + 2) + k \<and> (i + 2) + k \<le> j0 \<and> (i + 2) + k + 2 \<le> unat len"
    using i(1) k(1) d bound by simp
  with i_soi i_first j_eoi j_first res' show ?thesis by blast
qed


theorem findJpegFrame_first_frame_witness:
  "unat (8 :: size_t) \<le> length [0xAB, 0xFF, 0xD8, 0x01, 0x02, 0xFF, 0xD9, 0xCD :: byte] \<and>
   marker_in [0xAB, 0xFF, 0xD8, 0x01, 0x02, 0xFF, 0xD9, 0xCD] 8 0xD8 1 \<and>
   marker_in [0xAB, 0xFF, 0xD8, 0x01, 0x02, 0xFF, 0xD9, 0xCD] 8 0xD9 5 \<and>
   findJpegFrame [0xAB, 0xFF, 0xD8, 0x01, 0x02, 0xFF, 0xD9, 0xCD] 8 0 = Inr (6, 1)"
proof -
  let ?B = "[0xAB, 0xFF, 0xD8, 0x01, 0x02, 0xFF, 0xD9, 0xCD :: byte]"
  have h1: "unat (8 :: size_t) \<le> length ?B" by simp
  have h2: "marker_in ?B 8 0xD8 1" by (simp add: marker_in_def)
  have h3: "marker_in ?B 8 0xD9 5" by (simp add: marker_in_def)
  have h4: "(1 :: nat) < 5" by simp
  obtain i j where ij: "i \<le> 1" "i + 2 \<le> j" "j \<le> 5" "marker_in ?B 8 0xD8 i"
      "marker_in ?B 8 0xD9 j"
      "findJpegFrame ?B 8 0 = Inr (of_nat (j + 2 - i), of_nat i)"
    using findJpegFrame_first_frame [OF h1 h2 h3 h4, of 0] by blast
  have "\<not> marker_in ?B 8 0xD8 0" by (simp add: marker_in_def)
  then have "i \<noteq> 0" using ij(4) by metis
  then have i: "i = 1" using ij(1) by simp
  have "j = 3 \<or> j = 4 \<or> j = 5" using ij(2,3) i by auto
  moreover have "\<not> marker_in ?B 8 0xD9 3" "\<not> marker_in ?B 8 0xD9 4"
    by (simp_all add: marker_in_def)
  ultimately have j: "j = 5" using ij(5) by blast
  show ?thesis using h1 h2 h3 ij(6) i j by simp
qed

lemma no_eoi_after:
  assumes len: "unat len \<le> length buffer"
      and "spec_find_marker 0xD8 (take (unat len) buffer) = Some i"
      and no: "\<forall>i k. marker_in buffer len 0xD8 i \<and> i < k \<longrightarrow> \<not> marker_in buffer len 0xD9 k"
  shows "spec_find_marker 0xD9 (drop (i + 2) (take (unat len) buffer)) = None"
proof -
  let ?xs = "take (unat len) buffer"
  have soi: "marker_in buffer len 0xD8 i"
    using assms(2) spec_find_marker_Some [of "0xD8" ?xs i] by (simp add: marker_in_take [OF len])
  have "\<forall>k. k + 1 < length (drop (i + 2) ?xs) \<longrightarrow>
       \<not> (drop (i + 2) ?xs ! k = 0xFF \<and> drop (i + 2) ?xs ! (k + 1) = 0xD9)"
  proof (intro allI impI)
    fix k assume k: "k + 1 < length (drop (i + 2) ?xs)"
    have "i < (i + 2) + k" by simp
    with no soi have "\<not> marker_in buffer len 0xD9 ((i + 2) + k)" by blast
    then show "\<not> (drop (i + 2) ?xs ! k = 0xFF \<and> drop (i + 2) ?xs ! (k + 1) = 0xD9)"
      using k unfolding marker_in_drop [OF len] by blast
  qed
  then show ?thesis by (simp only: spec_find_marker_None)
qed

lemma no_frame_result:
  assumes len: "unat len \<le> length buffer" and nz: "len \<noteq> 0"
      and no: "\<forall>i k. marker_in buffer len 0xD8 i \<and> i < k \<longrightarrow> \<not> marker_in buffer len 0xD9 k"
  shows "\<exists>st. findJpegFrame buffer len frameStart = Inr (0, st) \<and>
           ((\<forall>k. \<not> marker_in buffer len 0xD8 k) \<longrightarrow> st = frameStart) \<and>
           (\<forall>i. marker_in buffer len 0xD8 i \<and> (\<forall>k<i. \<not> marker_in buffer len 0xD8 k)
                 \<longrightarrow> st = of_nat i)"
proof (cases "spec_find_marker 0xD8 (take (unat len) buffer)")
  case None
  then have none: "\<forall>k. \<not> marker_in buffer len 0xD8 k"
    unfolding spec_find_marker_None marker_in_take [OF len] by blast
  have "findJpegFrame buffer len frameStart = Inr (0, frameStart)"
    using findJpegFrame_refines [OF len nz, of frameStart] None by simp
  with none show ?thesis by blast
next
  case (Some i)
  let ?xs = "take (unat len) buffer"
  have soi: "marker_in buffer len 0xD8 i"
    using Some spec_find_marker_Some [of "0xD8" ?xs i] by (simp add: marker_in_take [OF len])
  have first: "\<forall>k<i. \<not> marker_in buffer len 0xD8 k"
  proof (intro allI impI)
    fix k assume "k < i"
    then have "\<not> (?xs ! k = 0xFF \<and> ?xs ! (k + 1) = 0xD8)"
      using Some spec_find_marker_Some [of "0xD8" ?xs i] by blast
    then show "\<not> marker_in buffer len 0xD8 k" by (simp add: marker_in_take [OF len])
  qed
  have uniq: "\<forall>i'. marker_in buffer len 0xD8 i' \<and> (\<forall>k<i'. \<not> marker_in buffer len 0xD8 k)
       \<longrightarrow> i' = i"
    using soi first by (meson linorder_neqE_nat)
  have "findJpegFrame buffer len frameStart = Inr (0, of_nat i)"
    using findJpegFrame_refines [OF len nz, of frameStart] Some no_eoi_after [OF len Some no]
    by simp
  with soi uniq show ?thesis by blast
qed

text \<open>
  Claim C5, as amended. For a buffer of \<open>len \<ge> 1\<close> bytes in which no end marker follows a
  start marker (there is no start marker at all, or there is one and no end marker after
  it), \<open>findJpegFrame\<close> returns size 0 in both cases. It leaves \<^verbatim>\<open>*frameStart\<close> as it was
  when there is no start marker and sets it to the index of the first one otherwise; the
  caller does not look at it: the scan phase of \<open>handleClient\<close> hands nothing to the
  decoder and leaves the whole state, the buffer contents included, unchanged.
\<close>

theorem findJpegFrame_no_frame:
  assumes len: "unat len \<le> length buffer" and nz: "len \<noteq> 0"
      and no: "\<forall>i k. marker_in buffer len 0xD8 i \<and> i < k \<longrightarrow> \<not> marker_in buffer len 0xD9 k"
  shows "(\<exists>st. findJpegFrame buffer len frameStart = Inr (0, st) \<and>
           ((\<forall>k. \<not> marker_in buffer len 0xD8 k) \<longrightarrow> st = frameStart) \<and>
           (\<forall>i. marker_in buffer len 0xD8 i \<and> (\<forall>k<i. \<not> marker_in buffer len 0xD8 k)
                 \<longrightarrow> st = of_nat i)) \<and>
         (\<forall>e s. jpegBuffer s = buffer \<and> jpegBufferPos s = len
                 \<longrightarrow> decode_frame e s = Inr (None, s))"
proof
  show "\<exists>st. findJpegFrame buffer len frameStart = Inr (0, st) \<and>
           ((\<forall>k. \<not> marker_in buffer len 0xD8 k) \<longrightarrow> st = frameStart) \<and>
           (\<forall>i. marker_in buffer len 0xD8 i \<and> (\<forall>k<i. \<not> marker_in buffer len 0xD8 k)
                 \<longrightarrow> st = of_nat i)"
    using no_frame_result [OF len nz no] .
next
  obtain st where st: "findJpegFrame buffer len 0 = Inr (0, st)"
    using no_frame_result [OF len nz no, of 0] by blast
  show "\<forall>e s. jpegBuffer s = buffer \<and> jpegBufferPos s = len
           \<longrightarrow> decode_frame e s = Inr (None, s)"
    using st by (simp add: decode_frame_def)
qed

theorem findJpegFrame_no_frame_witness:
  "unat (6 :: size_t) \<le> length [0x00, 0x11, 0xFF, 0xD8, 0x22, 0x33 :: byte] \<and>
   (6 :: size_t) \<noteq> 0 \<and>
   marker_in [0x00, 0x11, 0xFF, 0xD8, 0x22, 0x33] 6 0xD8 2 \<and>
   findJpegFrame [0x00, 0x11, 0xFF, 0xD8, 0x22, 0x33] 6 0 = Inr (0, 2) \<and>
   unat (4 :: size_t) \<le> length [0x00, 0xFF, 0xD9, 0x33 :: byte] \<and>
   findJpegFrame [0x00, 0xFF, 0xD9, 0x33] 4 0 = Inr (0, 0)"
proof -
  let ?B = "[0x00, 0x11, 0xFF, 0xD8, 0x22, 0x33 :: byte]"
  have h1: "unat (6 :: size_t) \<le> length ?B" by simp
  have h2: "(6 :: size_t) \<noteq> 0" by simp
  have e: "\<And>k. \<not> marker_in ?B 6 0xD9 k"
  proof -
    fix k :: nat
    have "k < 5 \<Longrightarrow> k = 0 \<or> k = 1 \<or> k = 2 \<or> k = 3 \<or> k = 4" by arith
    then show "\<not> marker_in ?B 6 0xD9 k" by (auto simp: marker_in_def)
  qed
  have h3: "\<forall>i k. marker_in ?B 6 0xD8 i \<and> i < k \<longrightarrow> \<not> marker_in ?B 6 0xD9 k"
    using e by blast
  have s2: "marker_in ?B 6 0xD8 2" by (simp add: marker_in_def)
  have f2: "\<forall>k<2. \<not> marker_in ?B 6 0xD8 k"
  proof (intro allI impI)
    fix k :: nat assume "k < 2"
    then have "k = 0 \<or> k = 1" by arith
    then show "\<not> marker_in ?B 6 0xD8 k" by (auto simp: marker_in_def)
  qed
  obtain st where st: "findJpegFrame ?B 6 0 = Inr (0, st)"
      "\<forall>i. marker_in ?B 6 0xD8 i \<and> (\<forall>k<i. \<not> marker_in ?B 6 0xD8 k) \<longrightarrow> st = of_nat i"
    using findJpegFrame_no_frame [OF h1 h2 h3, of 0] by blast
  have "st = of_nat 2" using st(2) s2 f2 by blast
  then have a: "findJpegFrame ?B 6 0 = Inr (0, 2)" using st(1) by simp
  let ?C = "[0x00, 0xFF, 0xD9, 0x33 :: byte]"
  have g1: "unat (4 :: size_t) \<le> length ?C" by simp
  have g2: "(4 :: size_t) \<noteq> 0" by simp
  have n: "\<And>k. \<not> marker_in ?C 4 0xD8 k"
  proof -
    fix k :: nat
    have "k < 3 \<Longrightarrow> k = 0 \<or> k = 1 \<or> k = 2" by arith
    then show "\<not> marker_in ?C 4 0xD8 k" by (auto simp: marker_in_def)
  qed
  have g3: "\<forall>i k. marker_in ?C 4 0xD8 i \<and> i < k \<longrightarrow> \<not> marker_in ?C 4 0xD9 k"
    using n by blast
  obtain st' where st': "findJpegFrame ?C 4 0 = Inr (0, st')"
      "(\<forall>k. \<not> marker_in ?C 4 0xD8 k) \<longrightarrow> st' = 0"
    using findJpegFrame_no_frame [OF g1 g2 g3, of 0] by blast
  have "st' = 0" using st'(2) n by blast
  then have b: "findJpegFrame ?C 4 0 = Inr (0, 0)" using st'(1) by simp
  show ?thesis using h1 h2 s2 a g1 b by (intro conjI)
qed

text \<open>
  With \<open>len = 0\<close> the bound \<open>len - 1\<close> of both loops wraps around, and the scan runs over
  whatever the allocation holds: the buffer has no byte, hence no start marker, and the
  returned size is 4; on an allocation of no bytes the first read is already out of
  bounds.
\<close>

theorem findJpegFrame_empty_counterexample:
  "findJpegFrame [0xFF, 0xD8, 0xFF, 0xD9] 0 0 = Inr (4, 0) \<and>
   findJpegFrame [] 0 0 = Inl OutOfBounds"
  by (simp add: findJpegFrame_def findJpegFrame_outer.simps findJpegFrame_inner.simps
      marker_at_def peek_def word_order.not_eq_extremum [symmetric])

section \<open>The scan phase on the unconsumed bytes\<close>

lemma unat_MAX: "unat MAX_JPEG_SIZE = 102400"
  by (simp add: MAX_JPEG_SIZE_def)

lemma spec_scan_bounds:
  "spec_scan xs = Some (i, j) \<Longrightarrow> i + 2 \<le> j \<and> j + 2 \<le> length xs"
  by (auto simp: spec_scan_def split: option.splits dest!: spec_find_marker_bound)

lemma spec_scan_short: "length xs < 4 \<Longrightarrow> spec_scan xs = None"
  using spec_scan_bounds [of xs] by (cases "spec_scan xs") auto

lemma compact_spec:
  assumes "unat (jpegBufferPos s) \<le> length (jpegBuffer s)" "fe \<le> jpegBufferPos s"
  shows "compact fe s =
           Inr (s\<lparr>jpegBuffer := shifted (jpegBuffer s) (unat (jpegBufferPos s)) (unat fe),
                  jpegBufferPos := jpegBufferPos s - fe\<rparr>)
         \<and> length (shifted (jpegBuffer s) (unat (jpegBufferPos s)) (unat fe))
             = length (jpegBuffer s)
         \<and> take (unat (jpegBufferPos s - fe))
              (shifted (jpegBuffer s) (unat (jpegBufferPos s)) (unat fe))
             = drop (unat fe) (content s)"
proof (cases "fe < jpegBufferPos s")
  case True
  let ?n = "unat (jpegBufferPos s) - unat fe"
  let ?mem = "take ?n (drop (unat fe) (jpegBuffer s)) @ drop ?n (jpegBuffer s)"
  have lt: "unat fe < unat (jpegBufferPos s)" using True by (simp add: word_less_nat_alt)
  have sh: "shifted (jpegBuffer s) (unat (jpegBufferPos s)) (unat fe) = ?mem"
    using lt by (simp add: shifted_def)
  have u: "unat (jpegBufferPos s - fe) = ?n"
    using assms(2) by (simp add: unat_sub)
  have le: "unat fe \<le> unat (jpegBufferPos s)" using assms(2) by (simp add: word_le_nat_alt)
  have c: "compact fe s = Inr (s\<lparr>jpegBuffer := ?mem, jpegBufferPos := jpegBufferPos s - fe\<rparr>)"
    using True assms(1) u le by (simp add: compact_def memmove_def)
  have l: "length ?mem = length (jpegBuffer s)" using assms(1) le by simp
  have "length (take ?n (drop (unat fe) (jpegBuffer s))) = ?n" using assms(1) le by simp
  then have "take ?n ?mem = take ?n (drop (unat fe) (jpegBuffer s))" by simp
  also have "\<dots> = drop (unat fe) (content s)" by (simp add: content_def drop_take)
  finally have t: "take (unat (jpegBufferPos s - fe)) ?mem = drop (unat fe) (content s)"
    using u by simp
  from c l t show ?thesis unfolding sh by blast
next
  case False
  then have eq: "fe = jpegBufferPos s" using assms(2) by simp
  have sh: "shifted (jpegBuffer s) (unat (jpegBufferPos s)) (unat fe) = jpegBuffer s"
    using eq by (simp add: shifted_def)
  have "compact fe s = Inr (s\<lparr>jpegBuffer := jpegBuffer s, jpegBufferPos := jpegBufferPos s - fe\<rparr>)"
    using False eq by (simp add: compact_def)
  moreover have "take (unat (jpegBufferPos s - fe)) (jpegBuffer s) = drop (unat fe) (content s)"
    using eq by (simp add: content_def)
  ultimately show ?thesis unfolding sh by blast
qed

lemma decode_frame_none:
  assumes "unat (jpegBufferPos s) \<le> length (jpegBuffer s)" "spec_scan (content s) = None"
  shows "decode_frame e s = Inr (None, s)"
proof (cases "4 \<le> jpegBufferPos s")
  case True
  then have nz: "jpegBufferPos s \<noteq> 0" by auto
  obtain st where "findJpegFrame (jpegBuffer s) (jpegBufferPos s) 0 = Inr (0, st)"
    using findJpegFrame_refines [OF assms(1) nz, of 0] assms(2)
    by (auto simp: spec_scan_def content_def split: option.splits)
  then show ?thesis by (simp add: decode_frame_def)
next
  case False
  then show ?thesis by (simp add: decode_frame_def)
qed

lemma decode_frame_some:
  assumes le: "unat (jpegBufferPos s) \<le> length (jpegBuffer s)"
      and sc: "spec_scan (content s) = Some (i, j)"
  shows "decode_frame e s =
           Inr (Some (take (j + 2 - i) (drop i (content s))),
                (count_decoded e s)
                  \<lparr>jpegBuffer := shifted (jpegBuffer s) (unat (jpegBufferPos s)) (j + 2),
                   jpegBufferPos := jpegBufferPos s - of_nat (j + 2)\<rparr>)
           \<and> length (shifted (jpegBuffer s) (unat (jpegBufferPos s)) (j + 2))
               = length (jpegBuffer s)
           \<and> unat (jpegBufferPos s - of_nat (j + 2)) = unat (jpegBufferPos s) - (j + 2)
           \<and> take (unat (jpegBufferPos s) - (j + 2))
                (shifted (jpegBuffer s) (unat (jpegBufferPos s)) (j + 2))
               = drop (j + 2) (content s)"
proof -
  let ?pos = "jpegBufferPos s"
  let ?mem = "shifted (jpegBuffer s) (unat ?pos) (j + 2)"
  have len: "length (content s) = unat ?pos" using le by (simp add: content_def)
  have b: "i + 2 \<le> j" "j + 2 \<le> unat ?pos" using spec_scan_bounds [OF sc] len by simp_all
  obtain k where k: "j = i + 2 + k" using b(1) le_Suc_ex by blast
  have m: "spec_find_marker 0xD8 (take (unat ?pos) (jpegBuffer s)) = Some i"
      "spec_find_marker 0xD9 (drop (i + 2) (take (unat ?pos) (jpegBuffer s))) = Some k"
    using sc k by (auto simp: spec_scan_def content_def split: option.splits)
  have nz: "?pos \<noteq> 0" using b(2) by auto
  have four: "4 \<le> ?pos" using b by (simp add: word_le_nat_alt)
  have f: "findJpegFrame (jpegBuffer s) ?pos 0 = Inr (of_nat k + 4, of_nat i)"
    using findJpegFrame_refines [OF le nz, of 0] m by simp
  have ui: "unat (of_nat i :: size_t) = i" using b k by (intro le_unat_uoi [of _ ?pos]) simp
  have k4: "(of_nat k + 4 :: size_t) = of_nat (k + 4)" by simp
  have uk: "unat (of_nat k + 4 :: size_t) = k + 4"
    unfolding k4 using b k by (intro le_unat_uoi [of _ ?pos]) simp
  have fe: "(of_nat i + (of_nat k + 4) :: size_t) = of_nat (j + 2)" using k by simp
  have ufe: "unat (of_nat (j + 2) :: size_t) = j + 2"
    using b by (intro le_unat_uoi [of _ ?pos]) simp
  have pos: "0 < (of_nat k + 4 :: size_t)" using uk by (simp add: word_less_nat_alt)
  have sl: "read_bytes (jpegBuffer s) (of_nat i) (of_nat k + 4)
      = Inr (take (j + 2 - i) (drop i (content s)))"
  proof -
    have "i + (k + 4) \<le> length (jpegBuffer s)" using b k le by simp
    moreover have "take (k + 4) (drop i (jpegBuffer s)) = take (k + 4) (drop i (content s))"
      using b k by (simp add: content_def drop_take min_def)
    moreover have "j + 2 - i = k + 4" using k by simp
    ultimately show ?thesis using ui uk by (simp add: read_bytes_def)
  qed
  have cle: "unat (jpegBufferPos (count_decoded e s)) \<le> length (jpegBuffer (count_decoded e s))"
    using le by (simp add: count_decoded_def Let_def)
  have fle: "of_nat (j + 2) \<le> jpegBufferPos (count_decoded e s)"
    using b ufe by (simp add: count_decoded_def Let_def word_le_nat_alt)
  have cc: "content (count_decoded e s) = content s"
     "jpegBufferPos (count_decoded e s) = ?pos"
     "jpegBuffer (count_decoded e s) = jpegBuffer s"
    by (simp_all add: count_decoded_def Let_def content_def)
  have mem: "compact (of_nat (j + 2)) (count_decoded e s) =
       Inr ((count_decoded e s)\<lparr>jpegBuffer := ?mem, jpegBufferPos := ?pos - of_nat (j + 2)\<rparr>)"
     "length ?mem = length (jpegBuffer s)"
     "take (unat (?pos - of_nat (j + 2))) ?mem = drop (j + 2) (content s)"
    using compact_spec [OF cle fle] unfolding cc ufe by blast+
  have us: "unat (?pos - of_nat (j + 2)) = unat ?pos - (j + 2)"
    using fle ufe unfolding cc by (simp add: unat_sub)
  have t: "take (unat ?pos - (j + 2)) ?mem = drop (j + 2) (content s)"
    using mem(3) unfolding us .
  have "decode_frame e s = Inr (Some (take (j + 2 - i) (drop i (content s))),
                (count_decoded e s)\<lparr>jpegBuffer := ?mem,
                                      jpegBufferPos := ?pos - of_nat (j + 2)\<rparr>)"
  proof -
    have "decode_frame e s =
        (case compact (of_nat i + (of_nat k + 4)) (count_decoded e s) of
           Inl f \<Rightarrow> Inl f
         | Inr s3 \<Rightarrow> Inr (Some (take (j + 2 - i) (drop i (content s))), s3))"
      using four f pos sl by (simp add: decode_frame_def cong: sum.case_cong)
    then show ?thesis unfolding fe mem(1) by (simp only: sum.case)
  qed
  then show ?thesis using mem(2) us t by (intro conjI)
qed

section \<open>The read phase\<close>

lemma read_available_spec:
  assumes inv: "buffer_inv s"
  shows "read_available e s =
           Inr (s\<lparr>jpegBuffer := take (unat (jpegBufferPos s)) (jpegBuffer s)
                                  @ take (appended e s) (incoming e)
                                  @ drop (unat (jpegBufferPos s) + appended e s) (jpegBuffer s),
                  jpegBufferPos := jpegBufferPos s + of_nat (appended e s),
                  totalBytesReceived := totalBytesReceived s + of_nat (appended e s)\<rparr>)
         \<and> unat (jpegBufferPos s + of_nat (appended e s)) = unat (jpegBufferPos s) + appended e s
         \<and> unat (jpegBufferPos s) + appended e s \<le> unat MAX_JPEG_SIZE"
proof -
  let ?pos = "jpegBufferPos s" and ?mem = "jpegBuffer s" and ?n = "appended e s"
  have len: "length ?mem = unat MAX_JPEG_SIZE" and ple: "unat ?pos \<le> unat MAX_JPEG_SIZE"
    using inv by (simp_all add: buffer_inv_def word_le_nat_alt)
  have room: "unat (MAX_JPEG_SIZE - ?pos) = unat MAX_JPEG_SIZE - unat ?pos"
    using inv by (simp add: buffer_inv_def unat_sub)
  have nle: "unat ?pos + ?n \<le> unat MAX_JPEG_SIZE"
    using ple by (auto simp: appended_def min_def)
  have un: "unat (of_nat ?n :: size_t) = ?n"
    using nle by (intro le_unat_uoi [of _ MAX_JPEG_SIZE]) simp
  have "unat ?pos + unat (of_nat ?n :: size_t) < 2 ^ LENGTH(32)"
    using nle un by (simp add: unat_MAX)
  then have upos: "unat (?pos + of_nat ?n) = unat ?pos + ?n"
    using un by (simp only: unat_add_lem [THEN iffD1])
  have same: "?n = 0 \<Longrightarrow> s\<lparr>jpegBuffer := take (unat ?pos) ?mem @ take ?n (incoming e)
                                  @ drop (unat ?pos + ?n) ?mem,
                  jpegBufferPos := ?pos + of_nat ?n,
                  totalBytesReceived := totalBytesReceived s + of_nat ?n\<rparr> = s"
    by simp
  have r: "read_available e s =
           Inr (s\<lparr>jpegBuffer := take (unat ?pos) ?mem @ take ?n (incoming e)
                                  @ drop (unat ?pos + ?n) ?mem,
                  jpegBufferPos := ?pos + of_nat ?n,
                  totalBytesReceived := totalBytesReceived s + of_nat ?n\<rparr>)"
  proof (cases "available e > 0")
    case False
    then have "?n = 0" by (simp add: appended_def)
    then show ?thesis using False same by (simp add: read_available_def)
  next
    case True
    define toRead :: size_t
      where "toRead = min (word_of_int (available e)) (MAX_JPEG_SIZE - ?pos)"
    have rd: "read_available e s =
        (if toRead > 0 then
           (case client_read (incoming e) ?mem ?pos toRead of
              Inl f \<Rightarrow> Inl f
            | Inr (bytesRead, mem) \<Rightarrow>
                if bytesRead > 0 then
                  Inr (s\<lparr>jpegBuffer := mem,
                         jpegBufferPos := ?pos + word_of_int bytesRead,
                         totalBytesReceived := totalBytesReceived s + word_of_int bytesRead\<rparr>)
                else Inr (s\<lparr>jpegBuffer := mem\<rparr>))
         else Inr s)"
      using True unfolding read_available_def Let_def toRead_def by (simp only: if_True)
    have ut: "unat toRead = min (unat (word_of_int (available e) :: size_t)) (unat MAX_JPEG_SIZE - unat ?pos)"
      using room by (simp add: toRead_def min_def word_le_nat_alt)
    have tk: "take (unat toRead) (incoming e) = take ?n (incoming e)"
      using True ut by (simp add: appended_def min_def)
    have ltk: "length (take ?n (incoming e)) = ?n"
      using True by (simp add: appended_def)
    show ?thesis
    proof (cases "toRead > 0")
      case z: False
      then have "unat toRead = 0" by (simp add: word_less_nat_alt)
      then have "?n = 0" using True ut by (simp add: appended_def min_def split: if_splits)
      then show ?thesis using z same unfolding rd by simp
    next
      case nz: True
      have cr: "client_read (incoming e) ?mem ?pos toRead =
         Inr (int ?n, take (unat ?pos) ?mem @ take ?n (incoming e) @ drop (unat ?pos + ?n) ?mem)"
        using nle len ltk unfolding client_read_def Let_def tk write_bytes_def by simp
      show ?thesis
      proof (cases "?n = 0")
        case True
        then show ?thesis using nz same unfolding rd cr by simp
      next
        case False
        then show ?thesis using nz unfolding rd cr by simp
      qed
    qed
  qed
  from r upos nle show ?thesis by blast
qed

lemma read_available_io_fst:
  "map_sum id fst (read_available_io e s) = read_available e s"
  by (simp add: read_available_io_def read_available_def Let_def
      split: sum.splits prod.splits)

lemma read_available_io_spec:
  assumes inv: "buffer_inv s"
  shows "read_available_io e s =
           Inr (s\<lparr>jpegBuffer := take (unat (jpegBufferPos s)) (jpegBuffer s)
                                  @ take (appended e s) (incoming e)
                                  @ drop (unat (jpegBufferPos s) + appended e s) (jpegBuffer s),
                  jpegBufferPos := jpegBufferPos s + of_nat (appended e s),
                  totalBytesReceived := totalBytesReceived s + of_nat (appended e s)\<rparr>,
                drop (appended e s) (incoming e))"
proof -
  let ?pos = "jpegBufferPos s" and ?mem = "jpegBuffer s" and ?n = "appended e s"
  let ?s' = "s\<lparr>jpegBuffer := take (unat ?pos) ?mem @ take ?n (incoming e)
                                  @ drop (unat ?pos + ?n) ?mem,
                  jpegBufferPos := ?pos + of_nat ?n,
                  totalBytesReceived := totalBytesReceived s + of_nat ?n\<rparr>"
  have r: "read_available e s = Inr ?s'" using read_available_spec [OF inv, of e] by blast
  obtain t rest where io: "read_available_io e s = Inr (t, rest)"
    using r read_available_io_fst [of e s] by (cases "read_available_io e s") auto
  have t: "t = ?s'" using r io read_available_io_fst [of e s] by simp
  have len: "length ?mem = unat MAX_JPEG_SIZE" and ple: "unat ?pos \<le> unat MAX_JPEG_SIZE"
    using inv by (simp_all add: buffer_inv_def word_le_nat_alt)
  have room: "unat (MAX_JPEG_SIZE - ?pos) = unat MAX_JPEG_SIZE - unat ?pos"
    using inv by (simp add: buffer_inv_def unat_sub)
  have "rest = drop ?n (incoming e)"
  proof (cases "available e > 0")
    case False
    then have "?n = 0" by (simp add: appended_def)
    then show ?thesis using False io by (simp add: read_available_io_def)
  next
    case True
    define toRead :: size_t
      where "toRead = min (word_of_int (available e)) (MAX_JPEG_SIZE - ?pos)"
    have ut: "unat toRead = min (unat (word_of_int (available e) :: size_t)) (unat MAX_JPEG_SIZE - unat ?pos)"
      using room by (simp add: toRead_def min_def word_le_nat_alt)
    have ln: "length (take (unat toRead) (incoming e)) = ?n"
      using True ut by (simp add: appended_def min_def)
    show ?thesis
    proof (cases "toRead > 0")
      case z: False
      then have "unat toRead = 0" by (simp add: word_less_nat_alt)
      then have "?n = 0" using ln by simp
      then show ?thesis using z True io
        by (simp add: read_available_io_def Let_def toRead_def [symmetric])
    next
      case nz: True
      show ?thesis using nz True io ln
        by (auto simp: read_available_io_def Let_def toRead_def [symmetric] client_read_def
            split: sum.splits if_splits)
    qed
  qed
  then show ?thesis using io t by simp
qed

section \<open>The buffer invariant\<close>

lemma buffer_inv_le: "buffer_inv s \<Longrightarrow> unat (jpegBufferPos s) \<le> length (jpegBuffer s)"
  by (simp add: buffer_inv_def word_le_nat_alt)

lemma buffer_inv_accept: "buffer_inv s \<Longrightarrow> buffer_inv (accept_client e s)"
  by (simp add: buffer_inv_def accept_client_def Let_def)

lemma buffer_inv_read:
  assumes "buffer_inv s"
  shows "\<exists>s'. read_available e s = Inr s' \<and> buffer_inv s'"
proof -
  let ?s' = "s\<lparr>jpegBuffer := take (unat (jpegBufferPos s)) (jpegBuffer s)
                                  @ take (appended e s) (incoming e)
                                  @ drop (unat (jpegBufferPos s) + appended e s) (jpegBuffer s),
                  jpegBufferPos := jpegBufferPos s + of_nat (appended e s),
                  totalBytesReceived := totalBytesReceived s + of_nat (appended e s)\<rparr>"
  have r: "read_available e s = Inr ?s'"
    and u: "unat (jpegBufferPos s + of_nat (appended e s)) = unat (jpegBufferPos s) + appended e s"
    and b: "unat (jpegBufferPos s) + appended e s \<le> unat MAX_JPEG_SIZE"
    using read_available_spec [OF assms, of e] by blast+
  have "appended e s \<le> length (incoming e)" by (auto simp: appended_def min_def)
  then have "length (jpegBuffer ?s') = unat MAX_JPEG_SIZE"
    using assms b by (simp add: buffer_inv_def)
  moreover have "jpegBufferPos ?s' \<le> MAX_JPEG_SIZE" using u b by (simp add: word_le_nat_alt)
  ultimately have "buffer_inv ?s'" by (simp add: buffer_inv_def)
  with r show ?thesis by blast
qed

lemma buffer_inv_decode:
  assumes "buffer_inv s"
  shows "\<exists>fr s'. decode_frame e s = Inr (fr, s') \<and> buffer_inv s' \<and>
           jpegBufferPos s' \<le> jpegBufferPos s"
proof (cases "spec_scan (content s)")
  case None
  then show ?thesis
    using decode_frame_none [OF buffer_inv_le [OF assms], of e] assms by simp
next
  case (Some ij)
  obtain i j where ij: "ij = (i, j)" by (cases ij)
  let ?s' = "(count_decoded e s)
                  \<lparr>jpegBuffer := shifted (jpegBuffer s) (unat (jpegBufferPos s)) (j + 2),
                   jpegBufferPos := jpegBufferPos s - of_nat (j + 2)\<rparr>"
  have d: "decode_frame e s = Inr (Some (take (j + 2 - i) (drop i (content s))), ?s')"
    and l: "length (shifted (jpegBuffer s) (unat (jpegBufferPos s)) (j + 2))
               = length (jpegBuffer s)"
    and u: "unat (jpegBufferPos s - of_nat (j + 2)) = unat (jpegBufferPos s) - (j + 2)"
    using decode_frame_some [OF buffer_inv_le [OF assms], of i j e] Some ij by blast+
  have le: "jpegBufferPos s - of_nat (j + 2) \<le> jpegBufferPos s"
    using u by (simp add: word_le_nat_alt)
  have "jpegBufferPos s \<le> MAX_JPEG_SIZE" using assms by (simp add: buffer_inv_def)
  with le have "jpegBufferPos s - of_nat (j + 2) \<le> MAX_JPEG_SIZE" by (rule order_trans)
  then have "buffer_inv ?s'" using assms l by (simp add: buffer_inv_def)
  with d le show ?thesis by simp
qed

lemma buffer_inv_overflow: "buffer_inv s \<Longrightarrow> buffer_inv (overflow_check s)"
  by (simp add: buffer_inv_def overflow_check_def)

lemma buffer_inv_stats: "buffer_inv s \<Longrightarrow> buffer_inv (print_stats e s)"
  by (simp add: buffer_inv_def print_stats_def Let_def)

lemma overflow_check_margin: "jpegBufferPos (overflow_check s) \<le> MAX_JPEG_SIZE - 1024"
  by (simp add: overflow_check_def not_less)

lemma pos_stats: "jpegBufferPos (print_stats e s) = jpegBufferPos s"
  by (simp add: print_stats_def Let_def)

lemma handleClient_inv:
  assumes "buffer_inv s"
  shows "\<exists>r fr s'. handleClient e s = Inr (r, fr, s') \<and> buffer_inv s' \<and>
           (r \<longrightarrow> jpegBufferPos s' \<le> MAX_JPEG_SIZE - 1024)"
proof -
  have i1: "buffer_inv (accept_client e s)" using assms by (rule buffer_inv_accept)
  obtain s2 where s2: "read_available e (accept_client e s) = Inr s2" "buffer_inv s2"
    using buffer_inv_read [OF i1] by blast
  obtain fr s3 where s3: "decode_frame e s2 = Inr (fr, s3)" "buffer_inv s3"
    using buffer_inv_decode [OF s2(2)] by blast
  have i4: "buffer_inv (print_stats e (overflow_check s3))"
    using s3(2) by (intro buffer_inv_stats buffer_inv_overflow)
  have m: "jpegBufferPos (print_stats e (overflow_check s3)) \<le> MAX_JPEG_SIZE - 1024"
    by (simp add: pos_stats overflow_check_margin)
  show ?thesis
    using i1 s2 s3 i4 m by (auto simp: handleClient_def Let_def)
qed

lemma loop_inv:
  assumes "buffer_inv s"
  shows "\<exists>fr s'. loop e s = Inr (fr, s') \<and> buffer_inv s'"
proof -
  obtain r fr s' where h: "handleClient e s = Inr (r, fr, s')" "buffer_inv s'"
    using handleClient_inv [OF assms] by blast
  have "buffer_inv (s'\<lparr>jpegBufferPos := 0\<rparr>)" using h(2) by (simp add: buffer_inv_def)
  then show ?thesis using h by (simp add: loop_def)
qed

lemma run_inv:
  "buffer_inv s \<Longrightarrow> \<exists>frs s'. run es s = Inr (frs, s') \<and> buffer_inv s'"
proof (induction es arbitrary: s)
  case Nil
  then show ?case by simp
next
  case (Cons e es)
  obtain fr s1 where a: "loop e s = Inr (fr, s1)" "buffer_inv s1"
    using loop_inv [OF Cons.prems, of e] by blast
  obtain frs s' where b: "run es s1 = Inr (frs, s')" "buffer_inv s'"
    using Cons.IH [OF a(2)] by blast
  show ?case using a(1) b by simp
qed

text \<open>
  Claim C3. Every step of the drive cycle preserves the buffer invariant
  \<open>jpegBufferPos \<le> MAX_JPEG_SIZE\<close> (on the allocation of that size) and none of them reads
  or writes outside the allocation: accepting a client, reading the available bytes, the
  scan with decoding and compaction, the overflow check, the statistics window, and hence
  \<open>handleClient\<close>, \<open>loop\<close> and any number of drive cycles. At the overflow check, a fill level above
  \<open>MAX_JPEG_SIZE - 1024\<close> is set to 0 and any other is left alone, so that every call of
  \<open>handleClient\<close> that returns true leaves at most \<open>MAX_JPEG_SIZE - 1024\<close> bytes.
\<close>

theorem buffer_inv_preserved:
  assumes "buffer_inv s"
  shows "buffer_inv (accept_client e s) \<and>
         (\<exists>s'. read_available e s = Inr s' \<and> buffer_inv s') \<and>
         (\<exists>fr s'. decode_frame e s = Inr (fr, s') \<and> buffer_inv s') \<and>
         buffer_inv (overflow_check s) \<and>
         buffer_inv (print_stats e s) \<and>
         (\<exists>r fr s'. handleClient e s = Inr (r, fr, s') \<and> buffer_inv s' \<and>
            (r \<longrightarrow> jpegBufferPos s' \<le> MAX_JPEG_SIZE - 1024)) \<and>
         (\<exists>fr s'. loop e s = Inr (fr, s') \<and> buffer_inv s') \<and>
         (\<exists>frs s'. run es s = Inr (frs, s') \<and> buffer_inv s') \<and>
         (jpegBufferPos s > MAX_JPEG_SIZE - 1024 \<longrightarrow> jpegBufferPos (overflow_check s) = 0) \<and>
         (\<not> jpegBufferPos s > MAX_JPEG_SIZE - 1024 \<longrightarrow> overflow_check s = s)"
proof -
  have "\<exists>fr s'. decode_frame e s = Inr (fr, s') \<and> buffer_inv s'"
    using buffer_inv_decode [OF assms, of e] by blast
  moreover have "(jpegBufferPos s > MAX_JPEG_SIZE - 1024 \<longrightarrow> jpegBufferPos (overflow_check s) = 0)"
     "(\<not> jpegBufferPos s > MAX_JPEG_SIZE - 1024 \<longrightarrow> overflow_check s = s)"
    by (simp_all add: overflow_check_def)
  ultimately show ?thesis
    using buffer_inv_accept [OF assms] buffer_inv_read [OF assms] buffer_inv_overflow [OF assms]
      buffer_inv_stats [OF assms] handleClient_inv [OF assms] loop_inv [OF assms]
      run_inv [OF assms]
    by (intro conjI)
qed


theorem buffer_inv_preserved_witness:
  "buffer_inv (initial\<lparr>client := True, jpegBufferPos := 101377\<rparr>) \<and>
   jpegBufferPos (initial\<lparr>client := True, jpegBufferPos := 101377\<rparr>) > MAX_JPEG_SIZE - 1024 \<and>
   jpegBufferPos (overflow_check (initial\<lparr>client := True, jpegBufferPos := 101377\<rparr>)) = 0 \<and>
   buffer_inv (overflow_check (initial\<lparr>client := True, jpegBufferPos := 101377\<rparr>))"
proof -
  let ?s = "initial\<lparr>client := True, jpegBufferPos := 101377\<rparr>"
  have h: "buffer_inv ?s" by (simp add: buffer_inv_def MAX_JPEG_SIZE_def initial_def)
  have g: "jpegBufferPos ?s > MAX_JPEG_SIZE - 1024" by (simp add: MAX_JPEG_SIZE_def)
  have "jpegBufferPos ?s > MAX_JPEG_SIZE - 1024 \<longrightarrow> jpegBufferPos (overflow_check ?s) = 0"
    and "buffer_inv (overflow_check ?s)"
    using buffer_inv_preserved [OF h, of idle_env] by blast+
  then show ?thesis using h g by blast
qed

section \<open>Appending, bounds and compaction\<close>

text \<open>
  Claim C4, as amended. On a buffer that satisfies the invariant the read phase never
  faults and copies exactly \<open>n\<close> bytes, where \<open>n\<close> is the least of the number reported by
  \<^verbatim>\<open>available()\<close>, the remaining capacity \<open>MAX_JPEG_SIZE - jpegBufferPos\<close> and the number of
  bytes the read delivers (\<open>n = 0\<close> when nothing is reported available). They are the first
  \<open>n\<close> pending bytes and they land at offset \<open>jpegBufferPos\<close>: the bytes before that offset
  and the bytes from \<open>jpegBufferPos + n\<close> on are as they were, the allocation keeps its size
  (nothing is written at or past \<open>MAX_JPEG_SIZE\<close>), and \<open>jpegBufferPos\<close> and the byte
  counter grow by \<open>n\<close>. Exactly these \<open>n\<close> bytes are taken from the connection; the excess
  is not lost, it stays pending with the connection. When the connection reports as
  available exactly the bytes it holds, \<open>n\<close> is \<open>min(requested, capacity - length)\<close>.
\<close>

theorem read_available_appends:
  assumes inv: "buffer_inv s"
      and p: "p = unat (jpegBufferPos s)"
      and n: "n = (if available e > 0
                   then min (unat (word_of_int (available e) :: size_t))
                          (min (unat MAX_JPEG_SIZE - p) (length (incoming e)))
                   else 0)"
  shows "\<exists>s'. read_available e s = Inr s' \<and>
           read_available_io e s = Inr (s', drop n (incoming e)) \<and>
           s' = s\<lparr>jpegBuffer := take p (jpegBuffer s) @ take n (incoming e)
                                  @ drop (p + n) (jpegBuffer s),
                  jpegBufferPos := jpegBufferPos s + of_nat n,
                  totalBytesReceived := totalBytesReceived s + of_nat n\<rparr> \<and>
           unat (jpegBufferPos s') = p + n \<and> p + n \<le> unat MAX_JPEG_SIZE \<and>
           n \<le> length (incoming e) \<and>
           length (jpegBuffer s') = unat MAX_JPEG_SIZE \<and>
           take p (jpegBuffer s') = take p (jpegBuffer s) \<and>
           take n (drop p (jpegBuffer s')) = take n (incoming e) \<and>
           drop (p + n) (jpegBuffer s') = drop (p + n) (jpegBuffer s) \<and>
           content s' = content s @ take n (incoming e) \<and>
           totalBytesReceived s' = totalBytesReceived s + of_nat n \<and>
           (0 < available e \<and> available e < 2 ^ 31 \<longrightarrow>
              n = min (nat (available e))
                    (min (unat MAX_JPEG_SIZE - p) (length (incoming e)))) \<and>
           (available e = int (length (incoming e)) \<and> length (incoming e) < 2 ^ 31 \<longrightarrow>
              n = min (length (incoming e)) (unat MAX_JPEG_SIZE - p))"
proof -
  let ?mem = "jpegBuffer s"
  have len: "length ?mem = unat MAX_JPEG_SIZE" and ple: "p \<le> unat MAX_JPEG_SIZE"
    using inv p by (simp_all add: buffer_inv_def word_le_nat_alt)
  have a: "appended e s = n" using n p by (simp add: appended_def)
  let ?s' = "s\<lparr>jpegBuffer := take p ?mem @ take n (incoming e) @ drop (p + n) ?mem,
                  jpegBufferPos := jpegBufferPos s + of_nat n,
                  totalBytesReceived := totalBytesReceived s + of_nat n\<rparr>"
  have r: "read_available e s = Inr ?s'"
    and u: "unat (jpegBufferPos s + of_nat n) = p + n"
    and b: "p + n \<le> unat MAX_JPEG_SIZE"
    using read_available_spec [OF inv, of e] unfolding a p by blast+
  have io: "read_available_io e s = Inr (?s', drop n (incoming e))"
    using read_available_io_spec [OF inv, of e] unfolding a p .
  have nl: "n \<le> length (incoming e)" using n by (simp split: if_splits)
  have l1: "length (take p ?mem) = p" using len ple by simp
  have l2: "length (take n (incoming e)) = n" using nl by simp
  have c1: "length (jpegBuffer ?s') = unat MAX_JPEG_SIZE" using len b nl ple by simp
  have c2: "take p (jpegBuffer ?s') = take p ?mem" using l1 by simp
  have c3: "take n (drop p (jpegBuffer ?s')) = take n (incoming e)" using l1 l2 by simp
  have c4: "drop (p + n) (jpegBuffer ?s') = drop (p + n) ?mem" using l1 l2 by simp
  have c5: "content ?s' = content s @ take n (incoming e)"
    using l1 l2 u p by (simp add: content_def)
  have c6: "n = min (nat (available e)) (min (unat MAX_JPEG_SIZE - p) (length (incoming e)))"
    if h: "0 < available e \<and> available e < 2 ^ 31"
  proof -
    define m where "m = nat (available e)"
    have av: "available e = int m" using h by (simp add: m_def)
    have lt: "m < 2 ^ 31" using h unfolding m_def by (auto simp: nat_less_iff)
    have "unat (word_of_int (int m) :: size_t) = m"
      using lt by (simp add: unat_of_nat)
    then show ?thesis using n h unfolding av nat_int by simp
  qed
  have c7: "n = min (length (incoming e)) (unat MAX_JPEG_SIZE - p)"
    if h: "available e = int (length (incoming e)) \<and> length (incoming e) < 2 ^ 31"
  proof (cases "incoming e = []")
    case True
    then show ?thesis using n h by simp
  next
    case False
    then have "0 < available e \<and> available e < 2 ^ 31" using h by simp
    from c6 [OF this] show ?thesis using h by (simp add: min_def)
  qed
  show ?thesis using r io u b nl c1 c2 c3 c4 c5 c6 c7 by (intro exI [of _ ?s']) simp
qed

theorem read_available_appends_witness:
  "buffer_inv (initial\<lparr>client := True, jpegBufferPos := 101376\<rparr>) \<and>
   (\<exists>s'. read_available_io (deliver (replicate 2000 0xAA))
            (initial\<lparr>client := True, jpegBufferPos := 101376\<rparr>)
          = Inr (s', replicate 976 0xAA) \<and>
         unat (jpegBufferPos s') = 101376 + 1024 \<and>
         length (jpegBuffer s') = unat MAX_JPEG_SIZE \<and>
         take 1024 (drop 101376 (jpegBuffer s')) = replicate 1024 0xAA) \<and>
   (\<exists>s'. read_available_io (idle_env\<lparr>available := 4, incoming := [0x11, 0x22]\<rparr>)
            (initial\<lparr>client := True, jpegBufferPos := 101376\<rparr>)
          = Inr (s', []) \<and>
         unat (jpegBufferPos s') = 101376 + 2 \<and>
         take 2 (drop 101376 (jpegBuffer s')) = [0x11, 0x22])"
proof -
  let ?s = "initial\<lparr>client := True, jpegBufferPos := 101376\<rparr>"
  let ?e = "deliver (replicate 2000 0xAA)"
  let ?f = "idle_env\<lparr>available := 4, incoming := [0x11, 0x22]\<rparr>"
  have h1: "buffer_inv ?s" by (simp add: buffer_inv_def MAX_JPEG_SIZE_def initial_def)
  have h2: "101376 = unat (jpegBufferPos ?s)" by simp
  have h3: "1024 = (if available ?e > 0
                   then min (unat (word_of_int (available ?e) :: size_t))
                          (min (unat MAX_JPEG_SIZE - 101376) (length (incoming ?e)))
                   else 0)"
    by (simp add: deliver_def MAX_JPEG_SIZE_def)
  have h4: "2 = (if available ?f > 0
                   then min (unat (word_of_int (available ?f) :: size_t))
                          (min (unat MAX_JPEG_SIZE - 101376) (length (incoming ?f)))
                   else 0)"
    by (simp add: MAX_JPEG_SIZE_def)
  have t: "take 1024 (incoming ?e) = replicate 1024 0xAA"
    and d: "drop 1024 (incoming ?e) = replicate 976 0xAA" by (simp_all add: deliver_def)
  have t2: "take 2 (incoming ?f) = [0x11, 0x22]" and d2: "drop 2 (incoming ?f) = []"
    by simp_all
  have a: "\<exists>s'. read_available_io ?e ?s = Inr (s', replicate 976 0xAA) \<and>
         unat (jpegBufferPos s') = 101376 + 1024 \<and>
         length (jpegBuffer s') = unat MAX_JPEG_SIZE \<and>
         take 1024 (drop 101376 (jpegBuffer s')) = replicate 1024 0xAA"
    using read_available_appends [OF h1 h2 h3] unfolding t d by blast
  have b: "\<exists>s'. read_available_io ?f ?s = Inr (s', []) \<and>
         unat (jpegBufferPos s') = 101376 + 2 \<and>
         take 2 (drop 101376 (jpegBuffer s')) = [0x11, 0x22]"
    using read_available_appends [OF h1 h2 h4] unfolding t2 d2 by blast
  show ?thesis using h1 a b by blast
qed

text \<open>
  A read that delivers two bytes when four are reported available appends two bytes, not
  \<open>min(4, capacity - length) = 4\<close>. And with 1024 bytes of capacity left and 2000 bytes
  pending, 1024 bytes are copied and the other 976 are still pending afterwards.
\<close>

theorem read_available_counterexample:
  "map_sum id (\<lambda>(s', rest). (jpegBufferPos s', content s', rest))
     (read_available_io (idle_env\<lparr>available := 4, incoming := [0x11, 0x22]\<rparr>)
        (initial\<lparr>client := True\<rparr>)) = Inr (2, [0x11, 0x22], []) \<and>
   min (4 :: nat) (unat MAX_JPEG_SIZE - unat (jpegBufferPos (initial\<lparr>client := True\<rparr>))) = 4 \<and>
   map_sum id (\<lambda>(s', rest). (jpegBufferPos s', rest))
     (read_available_io (deliver (replicate 2000 0xAA))
        (initial\<lparr>client := True, jpegBufferPos := 101376\<rparr>))
     = Inr (102400, replicate 976 0xAA)"
proof -
  let ?s = "initial\<lparr>client := True\<rparr>"
  let ?f = "idle_env\<lparr>available := 4, incoming := [0x11, 0x22]\<rparr>"
  let ?t = "initial\<lparr>client := True, jpegBufferPos := 101376\<rparr>"
  let ?e = "deliver (replicate 2000 0xAA)"
  have i1: "buffer_inv ?s" by (simp add: buffer_inv_def MAX_JPEG_SIZE_def initial_def)
  have i2: "buffer_inv ?t" by (simp add: buffer_inv_def MAX_JPEG_SIZE_def initial_def)
  have a1: "appended ?f ?s = 2" by (simp add: appended_def MAX_JPEG_SIZE_def initial_def)
  have a2: "appended ?e ?t = 1024" by (simp add: appended_def deliver_def MAX_JPEG_SIZE_def)
  have c1: "map_sum id (\<lambda>(s', rest). (jpegBufferPos s', content s', rest))
     (read_available_io ?f ?s) = Inr (2, [0x11, 0x22], [])"
    unfolding read_available_io_spec [OF i1] a1 by (simp add: content_def initial_def)
  have c2: "min (4 :: nat) (unat MAX_JPEG_SIZE - unat (jpegBufferPos ?s)) = 4"
    by (simp add: MAX_JPEG_SIZE_def initial_def)
  have c3: "map_sum id (\<lambda>(s', rest). (jpegBufferPos s', rest)) (read_available_io ?e ?t)
     = Inr (102400, replicate 976 0xAA)"
    unfolding read_available_io_spec [OF i2] a2 by (simp add: deliver_def)
  show ?thesis using c1 c2 c3 by blast
qed

text \<open>
  Claim C9. The accesses of \<open>findJpegFrame\<close> stay within the first \<open>len\<close> bytes exactly
  when \<open>len \<ge> 1\<close>. With \<open>len = 0\<close> the loop bound \<open>len - 1\<close> is \<open>0xFFFFFFFF\<close> and the first
  access, \<^verbatim>\<open>buffer[0]\<close>, is already outside a buffer of \<open>len\<close> bytes. With \<open>len \<ge> 1\<close> the scan
  of an allocation cut down to exactly \<open>len\<close> bytes meets no access outside it, and gives
  what the scan of the whole allocation gives: every index read is at most \<open>len - 1\<close>. The
  one call, in the scan phase of \<open>handleClient\<close>, is made only when
  \<open>jpegBufferPos \<ge> 4\<close>: below that the phase does nothing, and on every state that
  satisfies the buffer invariant it meets no access out of bounds.
\<close>

theorem findJpegFrame_in_bounds:
  "(len = 0 \<longrightarrow> len - 1 = 0xFFFFFFFF \<and>
      findJpegFrame (take (unat len) buffer) len frameStart = Inl OutOfBounds) \<and>
   (len \<noteq> 0 \<and> unat len \<le> length buffer \<longrightarrow>
      (\<exists>r. findJpegFrame (take (unat len) buffer) len frameStart = Inr r \<and>
           findJpegFrame buffer len frameStart = Inr r)) \<and>
   (jpegBufferPos s < 4 \<longrightarrow> decode_frame e s = Inr (None, s)) \<and>
   (buffer_inv s \<longrightarrow> (\<exists>r. decode_frame e s = Inr r))"
proof (intro conjI impI)
  assume z: "len = 0"
  show "len - 1 = 0xFFFFFFFF" using z by simp
  show "findJpegFrame (take (unat len) buffer) len frameStart = Inl OutOfBounds"
    using z by (simp add: findJpegFrame_def findJpegFrame_outer.simps [of _ 0] marker_at_def
        peek_def word_order.not_eq_extremum [symmetric])
next
  assume a: "len \<noteq> 0 \<and> unat len \<le> length buffer"
  have l: "unat len \<le> length (take (unat len) buffer)" using a by simp
  have "findJpegFrame (take (unat len) buffer) len frameStart
      = findJpegFrame buffer len frameStart"
    using findJpegFrame_refines [OF l, of frameStart] findJpegFrame_refines [of len buffer frameStart] a
    by (simp cong: option.case_cong)
  moreover have "\<exists>r. findJpegFrame buffer len frameStart = Inr r"
    using findJpegFrame_refines [of len buffer frameStart] a by simp
  ultimately show "\<exists>r. findJpegFrame (take (unat len) buffer) len frameStart = Inr r \<and>
           findJpegFrame buffer len frameStart = Inr r" by simp
next
  assume "jpegBufferPos s < 4"
  then have "\<not> 4 \<le> jpegBufferPos s" by (simp add: not_le)
  then show "decode_frame e s = Inr (None, s)" by (simp add: decode_frame_def)
next
  assume "buffer_inv s"
  then show "\<exists>r. decode_frame e s = Inr r" using buffer_inv_decode [of s e] by auto
qed

theorem findJpegFrame_in_bounds_witness:
  "findJpegFrame (take (unat (0 :: size_t)) [0xFF, 0xD8, 0xFF, 0xD9]) 0 0 = Inl OutOfBounds \<and>
   (5 :: size_t) \<noteq> 0 \<and> unat (5 :: size_t) \<le> length [0xFF, 0xD8, 0x00, 0xFF, 0xD9, 0xFF, 0xD9 :: byte] \<and>
   (\<exists>r. findJpegFrame (take (unat (5 :: size_t)) [0xFF, 0xD8, 0x00, 0xFF, 0xD9, 0xFF, 0xD9]) 5 0 = Inr r \<and>
        findJpegFrame [0xFF, 0xD8, 0x00, 0xFF, 0xD9, 0xFF, 0xD9] 5 0 = Inr r) \<and>
   jpegBufferPos initial < 4 \<and> decode_frame idle_env initial = Inr (None, initial) \<and>
   buffer_inv initial"
proof -
  let ?B = "[0xFF, 0xD8, 0x00, 0xFF, 0xD9, 0xFF, 0xD9 :: byte]"
  note t = findJpegFrame_in_bounds
  have a: "findJpegFrame (take (unat (0 :: size_t)) [0xFF, 0xD8, 0xFF, 0xD9]) 0 0 = Inl OutOfBounds"
    using t [of 0 "[0xFF, 0xD8, 0xFF, 0xD9]" 0 initial idle_env] by blast
  have h: "(5 :: size_t) \<noteq> 0" "unat (5 :: size_t) \<le> length ?B" by simp_all
  have b: "\<exists>r. findJpegFrame (take (unat (5 :: size_t)) ?B) 5 0 = Inr r \<and>
        findJpegFrame ?B 5 0 = Inr r"
    using t [of 5 ?B 0 initial idle_env] h by blast
  have i: "jpegBufferPos initial < 4" by (simp add: initial_def)
  have c: "decode_frame idle_env initial = Inr (None, initial)"
    using t [of 5 ?B 0 initial idle_env] i by blast
  have d: "buffer_inv initial" by (simp add: buffer_inv_def initial_def MAX_JPEG_SIZE_def)
  show ?thesis using a h b i c d by blast
qed

lemma shifted_zero: "pos \<le> length mem \<Longrightarrow> shifted mem pos 0 = mem"
  by (simp add: shifted_def)

lemma compact_exact:
  assumes inv: "buffer_inv s"
  shows "compact k s =
           Inr (s\<lparr>jpegBuffer := shifted (jpegBuffer s) (unat (jpegBufferPos s)) (unat k),
                  jpegBufferPos := (if k < jpegBufferPos s then jpegBufferPos s - k else 0)\<rparr>)
         \<and> buffer_inv (s\<lparr>jpegBuffer := shifted (jpegBuffer s) (unat (jpegBufferPos s)) (unat k),
                  jpegBufferPos := (if k < jpegBufferPos s then jpegBufferPos s - k else 0)\<rparr>)
         \<and> content (s\<lparr>jpegBuffer := shifted (jpegBuffer s) (unat (jpegBufferPos s)) (unat k),
                  jpegBufferPos := (if k < jpegBufferPos s then jpegBufferPos s - k else 0)\<rparr>)
             = drop (unat k) (content s)
         \<and> unat (if k < jpegBufferPos s then jpegBufferPos s - k else 0)
             = unat (jpegBufferPos s) - unat k"
proof (cases "k < jpegBufferPos s")
  case False
  have sh: "shifted (jpegBuffer s) (unat (jpegBufferPos s)) (unat k) = jpegBuffer s"
    using False by (simp add: shifted_def word_less_nat_alt)
  have c: "compact k s = Inr (s\<lparr>jpegBufferPos := 0\<rparr>)" using False by (simp add: compact_def)
  have i: "buffer_inv (s\<lparr>jpegBufferPos := 0\<rparr>)" using inv by (simp add: buffer_inv_def)
  have le: "unat (jpegBufferPos s) \<le> unat k" using False by (simp add: word_less_nat_alt)
  have d: "drop (unat k) (content s) = []" using le by (simp add: content_def)
  show ?thesis using False c i d le unfolding sh by (simp add: content_def)
next
  case True
  let ?pos = "jpegBufferPos s"
  have le: "unat ?pos \<le> length (jpegBuffer s)" using inv by (rule buffer_inv_le)
  have kle: "k \<le> ?pos" using True by simp
  note cs = compact_spec [OF le kle]
  have l: "length (shifted (jpegBuffer s) (unat ?pos) (unat k)) = length (jpegBuffer s)"
    using cs by blast
  have sub: "?pos - k \<le> ?pos" using kle by (simp add: word_le_nat_alt unat_sub)
  have "?pos \<le> MAX_JPEG_SIZE" using inv by (simp add: buffer_inv_def)
  with sub have "?pos - k \<le> MAX_JPEG_SIZE" by (rule order_trans)
  then have i: "buffer_inv (s\<lparr>jpegBuffer := shifted (jpegBuffer s) (unat ?pos) (unat k),
                jpegBufferPos := ?pos - k\<rparr>)" using inv l by (simp add: buffer_inv_def)
  have u: "unat (?pos - k) = unat ?pos - unat k" using kle by (simp add: unat_sub)
  have t: "take (unat (?pos - k)) (shifted (jpegBuffer s) (unat ?pos) (unat k))
             = drop (unat k) (content s)" using cs by blast
  have c: "compact k s = Inr (s\<lparr>jpegBuffer := shifted (jpegBuffer s) (unat ?pos) (unat k),
                jpegBufferPos := ?pos - k\<rparr>)" using cs by blast
  show ?thesis using True c i u t by (simp add: content_def)
qed

text \<open>
  Claim C7, as amended. On a buffer that satisfies the invariant, \<open>compact(k)\<close> never
  faults and removes the first \<open>k\<close> unconsumed bytes, or all of them when there are at most
  \<open>k\<close>: the bytes that remain are the old ones from offset \<open>k\<close> on, moved to offset 0, and
  the fill level drops by \<open>k\<close> (to 0 when \<open>k\<close> is not below it). A second \<open>compact(k)\<close>
  right after the first does the same again to what the first call left: it removes a
  further \<open>k\<close> bytes, or empties the buffer. So the second call is a no-op exactly when
  \<open>k = 0\<close> or \<open>k\<close> is at least the fill level (the first call emptied the buffer). The
  states after both calls are given in full; neither call reads or writes outside the
  allocation.
\<close>

theorem compact_twice_noop_iff:
  assumes inv: "buffer_inv s"
  shows "\<exists>s1 s2.
           compact k s = Inr s1 \<and> compact k s1 = Inr s2 \<and> compact_twice k s = Inr s2 \<and>
           s1 = s\<lparr>jpegBuffer := shifted (jpegBuffer s) (unat (jpegBufferPos s)) (unat k),
                  jpegBufferPos := (if k < jpegBufferPos s then jpegBufferPos s - k else 0)\<rparr> \<and>
           s2 = s1\<lparr>jpegBuffer := shifted (jpegBuffer s1) (unat (jpegBufferPos s1)) (unat k),
                   jpegBufferPos := (if k < jpegBufferPos s1 then jpegBufferPos s1 - k else 0)\<rparr> \<and>
           buffer_inv s1 \<and> buffer_inv s2 \<and>
           content s1 = drop (unat k) (content s) \<and>
           content s2 = drop (unat k) (content s1) \<and>
           unat (jpegBufferPos s1) = unat (jpegBufferPos s) - unat k \<and>
           unat (jpegBufferPos s2) = unat (jpegBufferPos s1) - unat k \<and>
           (s2 = s1 \<longleftrightarrow> k = 0 \<or> jpegBufferPos s \<le> k)"
proof -
  define s1 where "s1 = s\<lparr>jpegBuffer := shifted (jpegBuffer s) (unat (jpegBufferPos s)) (unat k),
                  jpegBufferPos := (if k < jpegBufferPos s then jpegBufferPos s - k else 0)\<rparr>"
  define s2 where "s2 = s1\<lparr>jpegBuffer := shifted (jpegBuffer s1) (unat (jpegBufferPos s1)) (unat k),
                   jpegBufferPos := (if k < jpegBufferPos s1 then jpegBufferPos s1 - k else 0)\<rparr>"
  note e1 = compact_exact [OF inv, of k, folded s1_def]
  have c1: "compact k s = Inr s1" and i1: "buffer_inv s1"
    and t1: "content s1 = drop (unat k) (content s)" using e1 by blast+
  have p1: "jpegBufferPos s1 = (if k < jpegBufferPos s then jpegBufferPos s - k else 0)"
    by (simp add: s1_def)
  have u1: "unat (jpegBufferPos s1) = unat (jpegBufferPos s) - unat k"
    unfolding p1 using e1 by blast
  note e2 = compact_exact [OF i1, of k, folded s2_def]
  have c2: "compact k s1 = Inr s2" and i2: "buffer_inv s2"
    and t2: "content s2 = drop (unat k) (content s1)" using e2 by blast+
  have p2: "jpegBufferPos s2 = (if k < jpegBufferPos s1 then jpegBufferPos s1 - k else 0)"
    by (simp add: s2_def)
  have u2: "unat (jpegBufferPos s2) = unat (jpegBufferPos s1) - unat k"
    unfolding p2 using e2 by blast
  have ct: "compact_twice k s = Inr s2" using c1 c2 by (simp add: compact_twice_def)
  have iff: "s2 = s1 \<longleftrightarrow> k = 0 \<or> jpegBufferPos s \<le> k"
  proof
    assume "s2 = s1"
    then have "unat (jpegBufferPos s1) - unat k = unat (jpegBufferPos s1)" using u2 by simp
    then have "unat k = 0 \<or> unat (jpegBufferPos s1) = 0" by arith
    then have "unat k = 0 \<or> unat (jpegBufferPos s) \<le> unat k" using u1 by arith
    then show "k = 0 \<or> jpegBufferPos s \<le> k" by (simp add: word_le_nat_alt unat_eq_0)
  next
    assume a: "k = 0 \<or> jpegBufferPos s \<le> k"
    have z: "jpegBufferPos s1 = 0 \<or> k = 0" using a p1 by auto
    have le: "unat (jpegBufferPos s1) \<le> length (jpegBuffer s1)" using i1 by (rule buffer_inv_le)
    have sh: "shifted (jpegBuffer s1) (unat (jpegBufferPos s1)) (unat k) = jpegBuffer s1"
      using z le by (auto simp: shifted_def)
    have "(if k < jpegBufferPos s1 then jpegBufferPos s1 - k else 0) = jpegBufferPos s1"
      using z by (auto simp: word_gt_0)
    then show "s2 = s1" unfolding s2_def sh by simp
  qed
  show ?thesis
    using c1 c2 ct i1 i2 t1 t2 u1 u2 iff s1_def s2_def
    by (intro exI [of _ s1] exI [of _ s2]) simp
qed

theorem compact_twice_noop_iff_witness:
  "buffer_inv (initial\<lparr>jpegBuffer := [1, 2, 3, 4, 5, 6, 7, 8] @ replicate 102392 0,
                       jpegBufferPos := 8\<rparr>) \<and>
   (\<exists>s1 s2. compact 3 (initial\<lparr>jpegBuffer := [1, 2, 3, 4, 5, 6, 7, 8] @ replicate 102392 0,
                                 jpegBufferPos := 8\<rparr>) = Inr s1 \<and>
            compact_twice 3 (initial\<lparr>jpegBuffer := [1, 2, 3, 4, 5, 6, 7, 8] @ replicate 102392 0,
                                      jpegBufferPos := 8\<rparr>) = Inr s2 \<and>
            content s1 = [4, 5, 6, 7, 8] \<and> content s2 = [7, 8] \<and> s2 \<noteq> s1) \<and>
   (\<exists>s1 s2. compact 8 (initial\<lparr>jpegBuffer := [1, 2, 3, 4, 5, 6, 7, 8] @ replicate 102392 0,
                                 jpegBufferPos := 8\<rparr>) = Inr s1 \<and>
            compact_twice 8 (initial\<lparr>jpegBuffer := [1, 2, 3, 4, 5, 6, 7, 8] @ replicate 102392 0,
                                      jpegBufferPos := 8\<rparr>) = Inr s2 \<and>
            content s1 = [] \<and> s2 = s1)"
proof -
  let ?s = "initial\<lparr>jpegBuffer := [1, 2, 3, 4, 5, 6, 7, 8] @ replicate 102392 0,
                    jpegBufferPos := 8\<rparr>"
  have h: "buffer_inv ?s" by (simp add: buffer_inv_def MAX_JPEG_SIZE_def initial_def)
  have p: "jpegBufferPos ?s = 8" by simp
  have c: "content ?s = [1, 2, 3, 4, 5, 6, 7, 8]" by (simp add: content_def)
  have a: "\<not> ((3 :: size_t) = 0 \<or> jpegBufferPos ?s \<le> 3)" unfolding p by simp
  have b: "(8 :: size_t) = 0 \<or> jpegBufferPos ?s \<le> 8" unfolding p by simp
  obtain s1 s2 where x: "compact 3 ?s = Inr s1" "compact_twice 3 ?s = Inr s2"
    "content s1 = drop (unat (3 :: size_t)) (content ?s)"
    "content s2 = drop (unat (3 :: size_t)) (content s1)"
    "s2 = s1 \<longleftrightarrow> (3 :: size_t) = 0 \<or> jpegBufferPos ?s \<le> 3"
    using compact_twice_noop_iff [OF h, of 3] by blast
  have x1: "content s1 = [4, 5, 6, 7, 8]" unfolding x(3) c by simp
  have x2: "content s2 = [7, 8]" unfolding x(4) x1 by simp
  have x3: "s2 \<noteq> s1" using x(5) a by blast
  obtain t1 t2 where y: "compact 8 ?s = Inr t1" "compact_twice 8 ?s = Inr t2"
    "content t1 = drop (unat (8 :: size_t)) (content ?s)"
    "t2 = t1 \<longleftrightarrow> (8 :: size_t) = 0 \<or> jpegBufferPos ?s \<le> 8"
    using compact_twice_noop_iff [OF h, of 8] by blast
  have y1: "content t1 = []" unfolding y(3) c by simp
  have y2: "t2 = t1" using y(4) b by blast
  show ?thesis using h x(1,2) x1 x2 x3 y(1,2) y1 y2 by blast
qed

text \<open>
  With eight unconsumed bytes, \<open>compact(3)\<close> leaves five of them and a second \<open>compact(3)\<close>
  leaves two: the second call is not a no-op.
\<close>

theorem compact_twice_counterexample:
  "map_sum id jpegBufferPos
     (compact 3 (initial\<lparr>jpegBuffer := [1, 2, 3, 4, 5, 6, 7, 8] @ replicate 102392 0,
                          jpegBufferPos := 8\<rparr>)) = Inr 5 \<and>
   map_sum id content
     (compact 3 (initial\<lparr>jpegBuffer := [1, 2, 3, 4, 5, 6, 7, 8] @ replicate 102392 0,
                          jpegBufferPos := 8\<rparr>)) = Inr [4, 5, 6, 7, 8] \<and>
   map_sum id jpegBufferPos
     (compact_twice 3 (initial\<lparr>jpegBuffer := [1, 2, 3, 4, 5, 6, 7, 8] @ replicate 102392 0,
                                jpegBufferPos := 8\<rparr>)) = Inr 2 \<and>
   map_sum id content
     (compact_twice 3 (initial\<lparr>jpegBuffer := [1, 2, 3, 4, 5, 6, 7, 8] @ replicate 102392 0,
                                jpegBufferPos := 8\<rparr>)) = Inr [7, 8]"
  by (simp add: initial_def compact_twice_def compact_def memmove_def content_def)

section \<open>The counters\<close>

lemma overflow_check_fields:
  "jpegBuffer (overflow_check s) = jpegBuffer s" "frameId (overflow_check s) = frameId s"
  "frameCount (overflow_check s) = frameCount s" "client (overflow_check s) = client s"
  by (simp_all add: overflow_check_def)

lemma print_stats_fields:
  "jpegBuffer (print_stats e s) = jpegBuffer s" "frameId (print_stats e s) = frameId s"
  "jpegBufferPos (print_stats e s) = jpegBufferPos s" "client (print_stats e s) = client s"
  "frameCount (print_stats e s) = frameCount s \<or> frameCount (print_stats e s) = 0"
  by (simp_all add: print_stats_def Let_def)

lemma count_decoded_fields:
  "jpegBuffer (count_decoded e s) = jpegBuffer s" "client (count_decoded e s) = client s"
  "jpegBufferPos (count_decoded e s) = jpegBufferPos s"
  "frameId (count_decoded e s) = (if drawJpg e = JDR_OK then frameId s + 1 else frameId s)"
  "frameCount (count_decoded e s) = (if drawJpg e = JDR_OK then frameCount s + 1 else frameCount s)"
  by (simp_all add: count_decoded_def Let_def)

lemma accept_client_fields:
  "jpegBuffer (accept_client e s) = jpegBuffer s" "frameId (accept_client e s) = frameId s"
  "frameCount (accept_client e s) = frameCount s \<or> frameCount (accept_client e s) = 0"
  by (simp_all add: accept_client_def Let_def)

lemma read_available_fields:
  assumes "read_available e s = Inr s'"
  shows "frameId s' = frameId s" "frameCount s' = frameCount s" "client s' = client s"
  using assms
  by (auto simp: read_available_def Let_def split: if_splits sum.splits prod.splits)

lemma compact_fields:
  assumes "compact fe s = Inr s'"
  shows "frameId s' = frameId s" "frameCount s' = frameCount s" "client s' = client s"
  using assms by (auto simp: compact_def split: if_splits sum.splits)

lemma decode_frame_fields:
  assumes "decode_frame e s = Inr (fr, s')"
  shows "client s' = client s"
    "frameId s' = (if fr \<noteq> None \<and> drawJpg e = JDR_OK then frameId s + 1 else frameId s)"
    "frameCount s' = (if fr \<noteq> None \<and> drawJpg e = JDR_OK then frameCount s + 1 else frameCount s)"
proof -
  have "(fr = None \<and> s' = s) \<or>
        (\<exists>fe. fr \<noteq> None \<and> compact fe (count_decoded e s) = Inr s')"
    using assms
    by (auto simp: decode_frame_def split: if_splits sum.splits prod.splits)
  then show "client s' = client s"
    "frameId s' = (if fr \<noteq> None \<and> drawJpg e = JDR_OK then frameId s + 1 else frameId s)"
    "frameCount s' = (if fr \<noteq> None \<and> drawJpg e = JDR_OK then frameCount s + 1 else frameCount s)"
    using compact_fields [of _ "count_decoded e s" s']
    by (auto simp: count_decoded_fields)
qed

lemma handleClient_frameId:
  assumes "handleClient e s = Inr (r, fr, s')"
  shows "frameId s' = (if fr \<noteq> None \<and> drawJpg e = JDR_OK then frameId s + 1 else frameId s)"
proof (cases "\<not> client (accept_client e s) \<or> \<not> connected_check e")
  case True
  then show ?thesis using assms by (auto simp: handleClient_def Let_def accept_client_fields)
next
  case False
  then obtain s2 s3 where s: "read_available e (accept_client e s) = Inr s2"
      "decode_frame e s2 = Inr (fr, s3)" "s' = print_stats e (overflow_check s3)"
    using assms by (auto simp: handleClient_def Let_def split: sum.splits)
  show ?thesis
    using read_available_fields(1) [OF s(1)] decode_frame_fields(2) [OF s(2)] s(3)
    by (simp add: print_stats_fields overflow_check_fields accept_client_fields)
qed

lemma loop_frameId:
  assumes "loop e s = Inr (fr, s')"
  shows "frameId s' = (if fr \<noteq> None \<and> drawJpg e = JDR_OK then frameId s + 1 else frameId s)"
proof -
  obtain r s1 where h: "handleClient e s = Inr (r, fr, s1)"
     and s': "s' = (if client s1 \<and> \<not> connected_loop e then s1\<lparr>jpegBufferPos := 0\<rparr> else s1)"
    using assms by (auto simp: loop_def split: sum.splits)
  have "frameId s' = frameId s1" using s' by simp
  then show ?thesis using handleClient_frameId [OF h] by simp
qed

lemma run_frameId:
  "run es s = Inr (frs, s') \<Longrightarrow> \<exists>n\<le>length frs. frameId s' = frameId s + of_nat n"
proof (induction es arbitrary: s frs)
  case Nil
  then show ?case by simp
next
  case (Cons e es)
  then obtain fr s1 frs1 where a: "loop e s = Inr (fr, s1)" "run es s1 = Inr (frs1, s')"
      "frs = (case fr of None \<Rightarrow> [] | Some f \<Rightarrow> [f]) @ frs1"
    by (auto split: sum.splits)
  obtain n where n: "n \<le> length frs1" "frameId s' = frameId s1 + of_nat n"
    using Cons.IH [OF a(2)] by blast
  show ?case
  proof (cases "fr \<noteq> None \<and> drawJpg e = JDR_OK")
    case True
    then have "frameId s' = frameId s + of_nat (Suc n)" "Suc n \<le> length frs"
      using loop_frameId [OF a(1)] n a(3) by auto
    then show ?thesis by blast
  next
    case False
    then have "frameId s' = frameId s + of_nat n" "n \<le> length frs"
      using loop_frameId [OF a(1)] n a(3) by (auto split: option.splits)
    then show ?thesis by blast
  qed
qed

lemmas eval_defs = loop_def handleClient_def accept_client_def read_available_def
  decode_frame_def findJpegFrame_def findJpegFrame_outer.simps findJpegFrame_inner.simps
  marker_at_def peek_def read_bytes_def count_decoded_def compact_def memmove_def
  overflow_check_def print_stats_def MAX_JPEG_SIZE_def idle_env_def initial_def Let_def
  client_read_def write_bytes_def deliver_def

text \<open>
  Claim C10, as amended. \<open>frameId\<close> is a 32-bit counter that only the increment after a
  successful decode changes: one drive cycle adds one (modulo \<open>2^32\<close>) when a frame was
  handed to the decoder and the decoder returned \<open>JDR_OK\<close>, and leaves it alone otherwise,
  whatever the cycle does besides (accepting a client, the reset of the statistics window,
  the reset on disconnect, the overflow reset). So it does not decrease in a cycle that
  starts below \<open>0xFFFFFFFF\<close>, and over any number of cycles it grows by the number of
  successful decodes, which is at most the number of frames handed to the decoder.
\<close>

theorem frameId_counts_decodes:
  "frameId (accept_client e s) = frameId s \<and>
   frameId (print_stats e s) = frameId s \<and>
   frameId (overflow_check s) = frameId s \<and>
   (loop e s = Inr (fr, s') \<longrightarrow>
      frameId s' = (if fr \<noteq> None \<and> drawJpg e = JDR_OK then frameId s + 1 else frameId s)) \<and>
   (loop e s = Inr (fr, s') \<and> frameId s \<noteq> 0xFFFFFFFF \<longrightarrow> frameId s \<le> frameId s') \<and>
   (run es s = Inr (frs, s'') \<longrightarrow> (\<exists>n\<le>length frs. frameId s'' = frameId s + of_nat n))"
proof (intro conjI impI)
  assume a: "loop e s = Inr (fr, s') \<and> frameId s \<noteq> 0xFFFFFFFF"
  then have "frameId s' = frameId s \<or> frameId s' = frameId s + 1"
    using loop_frameId [of e s fr s'] by (simp split: if_splits)
  moreover have "frameId s \<le> frameId s + 1"
  proof -
    have "(- 1 :: 32 word) = 0xFFFFFFFF" by simp
    then have "frameId s \<noteq> - 1" using a by metis
    then have "frameId s < - 1" by (simp add: word_order.not_eq_extremum [symmetric])
    then have "unat (frameId s + 1) = Suc (unat (frameId s))" by (rule unat_succ_less)
    then show ?thesis by (simp add: word_le_nat_alt)
  qed
  ultimately show "frameId s \<le> frameId s'" by auto
qed (simp_all add: accept_client_fields print_stats_fields overflow_check_fields
      loop_frameId run_frameId)

theorem frameId_counts_decodes_witness:
  "loop idle_env (initial\<lparr>client := True,
       jpegBuffer := [0xFF, 0xD8, 0xFF, 0xD9] @ replicate 102396 0, jpegBufferPos := 4,
       frameId := 7\<rparr>)
     = Inr (Some [0xFF, 0xD8, 0xFF, 0xD9],
            initial\<lparr>client := True,
              jpegBuffer := [0xFF, 0xD8, 0xFF, 0xD9] @ replicate 102396 0, jpegBufferPos := 0,
              frameId := 8, frameCount := 1\<rparr>) \<and>
   frameId (initial\<lparr>client := True,
       jpegBuffer := [0xFF, 0xD8, 0xFF, 0xD9] @ replicate 102396 0, jpegBufferPos := 4,
       frameId := 7\<rparr>) \<noteq> 0xFFFFFFFF \<and>
   (7 :: 32 word) \<le> 8"
proof -
  let ?s = "initial\<lparr>client := True,
       jpegBuffer := [0xFF, 0xD8, 0xFF, 0xD9] @ replicate 102396 0, jpegBufferPos := 4,
       frameId := 7\<rparr>"
  let ?s' = "initial\<lparr>client := True,
              jpegBuffer := [0xFF, 0xD8, 0xFF, 0xD9] @ replicate 102396 0, jpegBufferPos := 0,
              frameId := 8, frameCount := 1\<rparr>"
  have l: "loop idle_env ?s = Inr (Some [0xFF, 0xD8, 0xFF, 0xD9], ?s')"
    by (simp add: eval_defs)
  have n: "frameId ?s \<noteq> 0xFFFFFFFF" by simp
  have "frameId ?s \<le> frameId ?s'"
    using frameId_counts_decodes [of idle_env ?s "Some [0xFF, 0xD8, 0xFF, 0xD9]" ?s'] l n
    by blast
  then show ?thesis using l n by simp
qed

text \<open>
  At \<open>frameId = 0xFFFFFFFF\<close> a successfully decoded frame takes the counter to 0: it is
  not non-decreasing over an unbounded lifetime.
\<close>

theorem frameId_wraps_counterexample:
  "map_sum id (frameId \<circ> snd)
     (loop idle_env (initial\<lparr>client := True,
        jpegBuffer := [0xFF, 0xD8, 0xFF, 0xD9] @ replicate 102396 0, jpegBufferPos := 4,
        frameId := 0xFFFFFFFF\<rparr>)) = Inr 0"
  by (simp add: eval_defs)

lemma handleClient_steps:
  assumes "handleClient e s = Inr (r, Some frame, s')"
  shows "r \<and> client (accept_client e s) \<and> connected_check e \<and>
     (\<exists>s2 s3. read_available e (accept_client e s) = Inr s2 \<and>
        decode_frame e s2 = Inr (Some frame, s3) \<and> s' = print_stats e (overflow_check s3))"
  using assms by (auto simp: handleClient_def Let_def split: sum.splits if_splits)

lemma env_drawJpg_irrelevant:
  "accept_client (e\<lparr>drawJpg := d\<rparr>) s = accept_client e s"
  "read_available (e\<lparr>drawJpg := d\<rparr>) s = read_available e s"
  "print_stats (e\<lparr>drawJpg := d\<rparr>) s = print_stats e s"
  by (simp_all add: accept_client_def read_available_def print_stats_def Let_def)

lemma overflow_check_cong:
  "jpegBufferPos a = jpegBufferPos b \<Longrightarrow>
     jpegBufferPos (overflow_check a) = jpegBufferPos (overflow_check b)"
  by (simp add: overflow_check_def)

text \<open>
  Claim C6. When \<open>handleClient\<close> hands a frame to the decoder and the decoder fails
  (\<open>drawJpg e \<noteq> JDR_OK\<close>), the call still returns true with the client kept,
  \<open>frameId\<close> is unchanged and \<open>frameCount\<close> is not incremented (it keeps its value or is
  zeroed by the accept or the statistics window), and the buffer is compacted exactly as
  when the decoder succeeds: the same call with result \<open>JDR_OK\<close> hands over the same
  frame and leaves the same buffer bytes and fill level, only with \<open>frameId\<close> incremented.
  The frame it was: the first complete frame \<open>[i, j + 2)\<close> of the unconsumed bytes after
  the read, of which only the bytes from \<open>j + 2\<close> on remain (or none, after an overflow
  reset), so the scanner does not meet the failed frame again.
\<close>

theorem decode_failure_continues:
  assumes inv: "buffer_inv s"
      and bad: "drawJpg e \<noteq> JDR_OK"
      and h: "handleClient e s = Inr (r, Some frame, s')"
  shows "r \<and> client s' \<and> frameId s' = frameId s \<and>
         (frameCount s' = frameCount s \<or> frameCount s' = 0) \<and>
         (\<exists>s''. handleClient (e\<lparr>drawJpg := JDR_OK\<rparr>) s = Inr (True, Some frame, s'') \<and>
                jpegBuffer s'' = jpegBuffer s' \<and> jpegBufferPos s'' = jpegBufferPos s' \<and>
                frameId s'' = frameId s + 1) \<and>
         (\<exists>s2 i j. read_available e (accept_client e s) = Inr s2 \<and>
                spec_scan (content s2) = Some (i, j) \<and>
                frame = take (j + 2 - i) (drop i (content s2)) \<and>
                (content s' = drop (j + 2) (content s2) \<or> content s' = []))"
proof -
  let ?e' = "e\<lparr>drawJpg := JDR_OK\<rparr>"
  let ?s1 = "accept_client e s"
  obtain s2 s3 where st: "r" "client ?s1" "connected_check e"
      "read_available e ?s1 = Inr s2" "decode_frame e s2 = Inr (Some frame, s3)"
      "s' = print_stats e (overflow_check s3)"
    using handleClient_steps [OF h] by blast
  have i1: "buffer_inv ?s1" using inv by (rule buffer_inv_accept)
  have i2: "buffer_inv s2" using buffer_inv_read [OF i1, of e] st(4) by simp
  have le2: "unat (jpegBufferPos s2) \<le> length (jpegBuffer s2)" using i2 by (rule buffer_inv_le)
  obtain i j where sc: "spec_scan (content s2) = Some (i, j)"
    using decode_frame_none [OF le2, of e] st(5) by (cases "spec_scan (content s2)") auto
  let ?M = "shifted (jpegBuffer s2) (unat (jpegBufferPos s2)) (j + 2)"
  let ?P = "jpegBufferPos s2 - of_nat (j + 2)"
  have d: "decode_frame e s2 = Inr (Some (take (j + 2 - i) (drop i (content s2))),
             (count_decoded e s2)\<lparr>jpegBuffer := ?M, jpegBufferPos := ?P\<rparr>)"
    and d': "decode_frame ?e' s2 = Inr (Some (take (j + 2 - i) (drop i (content s2))),
             (count_decoded ?e' s2)\<lparr>jpegBuffer := ?M, jpegBufferPos := ?P\<rparr>)"
    and u: "unat ?P = unat (jpegBufferPos s2) - (j + 2)"
    and t: "take (unat (jpegBufferPos s2) - (j + 2)) ?M = drop (j + 2) (content s2)"
    using decode_frame_some [OF le2 sc] by blast+
  have fr: "frame = take (j + 2 - i) (drop i (content s2))"
    and s3: "s3 = (count_decoded e s2)\<lparr>jpegBuffer := ?M, jpegBufferPos := ?P\<rparr>"
    using d st(5) by simp_all
  let ?s3' = "(count_decoded ?e' s2)\<lparr>jpegBuffer := ?M, jpegBufferPos := ?P\<rparr>"
  let ?s'' = "print_stats e (overflow_check ?s3')"
  have c1: "client s'"
    using st(2,6) s3 read_available_fields(3) [OF st(4)]
    by (simp add: print_stats_fields overflow_check_fields count_decoded_fields)
  have c2: "frameId s' = frameId s"
    using st(6) s3 bad read_available_fields(1) [OF st(4)]
    by (simp add: print_stats_fields overflow_check_fields count_decoded_fields
        accept_client_fields)
  have "frameCount s3 = frameCount ?s1"
    using s3 bad read_available_fields(2) [OF st(4)] by (simp add: count_decoded_fields)
  then have "frameCount (overflow_check s3) = frameCount s \<or> frameCount (overflow_check s3) = 0"
    using accept_client_fields(3) [of e s] by (simp add: overflow_check_fields)
  then have c3: "frameCount s' = frameCount s \<or> frameCount s' = 0"
    using print_stats_fields(5) [of e "overflow_check s3"] st(6) by auto
  have h': "handleClient ?e' s = Inr (True, Some frame, ?s'')"
    using st(2,3,4) d' fr by (simp add: handleClient_def Let_def env_drawJpg_irrelevant)
  have c4: "jpegBuffer ?s'' = jpegBuffer s'"
    using st(6) s3 by (simp add: print_stats_fields overflow_check_fields)
  have "jpegBufferPos (overflow_check ?s3') = jpegBufferPos (overflow_check s3)"
    using s3 by (intro overflow_check_cong) simp
  then have c5: "jpegBufferPos ?s'' = jpegBufferPos s'"
    using st(6) by (simp add: print_stats_fields)
  have c6: "frameId ?s'' = frameId s + 1"
    using read_available_fields(1) [OF st(4)]
    by (simp add: print_stats_fields overflow_check_fields count_decoded_fields
        accept_client_fields)
  have "content s3 = drop (j + 2) (content s2)"
    using s3 u t by (simp add: content_def)
  moreover have "content (overflow_check s3) = content s3 \<or> content (overflow_check s3) = []"
    by (simp add: overflow_check_def content_def)
  moreover have "content s' = content (overflow_check s3)"
    using st(6) by (simp add: content_def print_stats_fields)
  ultimately have c7: "content s' = drop (j + 2) (content s2) \<or> content s' = []" by auto
  have A: "\<exists>s''. handleClient ?e' s = Inr (True, Some frame, s'') \<and>
                jpegBuffer s'' = jpegBuffer s' \<and> jpegBufferPos s'' = jpegBufferPos s' \<and>
                frameId s'' = frameId s + 1"
    using h' c4 c5 c6 by blast
  have B: "\<exists>s2 i j. read_available e (accept_client e s) = Inr s2 \<and>
                spec_scan (content s2) = Some (i, j) \<and>
                frame = take (j + 2 - i) (drop i (content s2)) \<and>
                (content s' = drop (j + 2) (content s2) \<or> content s' = [])"
    using st(4) sc fr c7 by blast
  show ?thesis using st(1) c1 c2 c3 A B by (intro conjI)
qed

theorem decode_failure_continues_witness:
  "buffer_inv (initial\<lparr>client := True,
       jpegBuffer := [0xFF, 0xD8, 0x13, 0xFF, 0xD9, 0x42] @ replicate 102394 0,
       jpegBufferPos := 6, frameId := 7\<rparr>) \<and>
   drawJpg (idle_env\<lparr>drawJpg := JDR_FMT1\<rparr>) \<noteq> JDR_OK \<and>
   handleClient (idle_env\<lparr>drawJpg := JDR_FMT1\<rparr>)
     (initial\<lparr>client := True,
        jpegBuffer := [0xFF, 0xD8, 0x13, 0xFF, 0xD9, 0x42] @ replicate 102394 0,
        jpegBufferPos := 6, frameId := 7\<rparr>)
     = Inr (True, Some [0xFF, 0xD8, 0x13, 0xFF, 0xD9],
            initial\<lparr>client := True,
              jpegBuffer := [0x42, 0xD8, 0x13, 0xFF, 0xD9, 0x42] @ replicate 102394 0,
              jpegBufferPos := 1, frameId := 7\<rparr>) \<and>
   (\<exists>s''. handleClient (idle_env\<lparr>drawJpg := JDR_FMT1, drawJpg := JDR_OK\<rparr>)
            (initial\<lparr>client := True,
               jpegBuffer := [0xFF, 0xD8, 0x13, 0xFF, 0xD9, 0x42] @ replicate 102394 0,
               jpegBufferPos := 6, frameId := 7\<rparr>)
            = Inr (True, Some [0xFF, 0xD8, 0x13, 0xFF, 0xD9], s'') \<and>
          jpegBuffer s'' = [0x42, 0xD8, 0x13, 0xFF, 0xD9, 0x42] @ replicate 102394 0 \<and>
          jpegBufferPos s'' = 1 \<and> frameId s'' = 8)"
proof -
  let ?s = "initial\<lparr>client := True,
       jpegBuffer := [0xFF, 0xD8, 0x13, 0xFF, 0xD9, 0x42] @ replicate 102394 0,
       jpegBufferPos := 6, frameId := 7\<rparr>"
  let ?s' = "initial\<lparr>client := True,
              jpegBuffer := [0x42, 0xD8, 0x13, 0xFF, 0xD9, 0x42] @ replicate 102394 0,
              jpegBufferPos := 1, frameId := 7\<rparr>"
  let ?e = "idle_env\<lparr>drawJpg := JDR_FMT1\<rparr>"
  have h1: "buffer_inv ?s" by (simp add: buffer_inv_def MAX_JPEG_SIZE_def initial_def)
  have h2: "drawJpg ?e \<noteq> JDR_OK" by simp
  have h3: "handleClient ?e ?s = Inr (True, Some [0xFF, 0xD8, 0x13, 0xFF, 0xD9], ?s')"
    by (simp add: eval_defs)
  have "\<exists>s''. handleClient (?e\<lparr>drawJpg := JDR_OK\<rparr>) ?s
            = Inr (True, Some [0xFF, 0xD8, 0x13, 0xFF, 0xD9], s'') \<and>
          jpegBuffer s'' = jpegBuffer ?s' \<and>
          jpegBufferPos s'' = jpegBufferPos ?s' \<and> frameId s'' = frameId ?s + 1"
    using decode_failure_continues [OF h1 h2 h3] by blast
  then have "\<exists>s''. handleClient (?e\<lparr>drawJpg := JDR_OK\<rparr>) ?s
            = Inr (True, Some [0xFF, 0xD8, 0x13, 0xFF, 0xD9], s'') \<and>
          jpegBuffer s'' = [0x42, 0xD8, 0x13, 0xFF, 0xD9, 0x42] @ replicate 102394 0 \<and>
          jpegBufferPos s'' = 1 \<and> frameId s'' = 8"
    by simp
  then show ?thesis using h1 h2 h3 by blast
qed

section \<open>The exact read\<close>

lemma read_chunk:
  assumes g: "got \<le> len" and l: "unat len \<le> length dst"
      and t: "toRead \<le> len - got"
  shows "\<exists>n. n = length (take (unat toRead) pending) \<and> n \<le> unat toRead \<and>
           unat (got + of_nat n) = unat got + n \<and> got + of_nat n \<le> len \<and>
           got \<le> got + of_nat n \<and>
           client_read pending dst got toRead =
             Inr (int n, take (unat got) dst @ take (unat toRead) pending
                          @ drop (unat got + n) dst)"
proof -
  let ?bs = "take (unat toRead) pending"
  let ?n = "length ?bs"
  have sub: "unat (len - got) = unat len - unat got" using g by (simp add: unat_sub)
  have gl: "unat got \<le> unat len" using g by (simp add: word_le_nat_alt)
  have n1: "?n \<le> unat toRead" by simp
  have n2: "?n \<le> unat len - unat got" using t sub by (simp add: word_le_nat_alt)
  have un: "unat (of_nat ?n :: size_t) = ?n"
    using n2 by (intro le_unat_uoi [of _ len]) simp
  have "unat got + unat (of_nat ?n :: size_t) < 2 ^ LENGTH(32)"
    using n2 gl un unsigned_less [of len, where 'a = nat] by simp
  then have u: "unat (got + of_nat ?n) = unat got + ?n"
    using un by (simp only: unat_add_lem [THEN iffD1])
  have le: "got + of_nat ?n \<le> len" using u n2 gl by (simp add: word_le_nat_alt)
  have ge: "got \<le> got + of_nat ?n" using u by (simp add: word_le_nat_alt)
  have "unat got + ?n \<le> length dst" using n2 gl l by simp
  then have "client_read pending dst got toRead =
      Inr (int ?n, take (unat got) dst @ ?bs @ drop (unat got + ?n) dst)"
    by (simp add: client_read_def write_bytes_def Let_def)
  with n1 u le ge show ?thesis by blast
qed

lemma readExactly_loop_result:
  assumes "unat len \<le> length dst" "got \<le> len"
      and "readExactly_loop obs len dst got startTime = Some res"
  shows "\<exists>r got' dst'. res = Inr (r, got', dst') \<and> (r \<longleftrightarrow> got' = len) \<and>
           got \<le> got' \<and> got' \<le> len \<and> length dst' = length dst \<and>
           take (unat got) dst' = take (unat got) dst \<and>
           drop (unat got') dst' = drop (unat got') dst"
  using assms
proof (induction obs arbitrary: dst got startTime)
  case Nil
  then show ?case by (auto split: if_splits)
next
  case (Cons ob obs)
  show ?case
  proof (cases "got < len \<and> r_connected ob")
    case False
    then have "res = Inr (got = len, got, dst)" using Cons.prems(3) by auto
    then show ?thesis using Cons.prems(2) by simp
  next
    case True
    show ?thesis
    proof (cases "r_millis ob - startTime > timeout")
      case to: True
      then have "res = Inr (False, got, dst)" using True Cons.prems(3) by simp
      then show ?thesis using True by auto
    next
      case nto: False
      show ?thesis
      proof (cases "r_available ob > 0")
        case False
        then have "readExactly_loop obs len dst got startTime = Some res"
          using True nto Cons.prems(3) by simp
        then show ?thesis using Cons.IH [OF Cons.prems(1,2)] by blast
      next
        case av: True
        define toRead :: size_t where "toRead = min (word_of_int (r_available ob)) (len - got)"
        have tle: "toRead \<le> len - got" by (simp add: toRead_def)
        obtain n where n: "n = length (take (unat toRead) (r_incoming ob))"
            "unat (got + of_nat n) = unat got + n" "got + of_nat n \<le> len"
            "got \<le> got + of_nat n"
            "client_read (r_incoming ob) dst got toRead =
               Inr (int n, take (unat got) dst @ take (unat toRead) (r_incoming ob)
                            @ drop (unat got + n) dst)"
          using read_chunk [OF Cons.prems(2,1) tle, of "r_incoming ob"] by blast
        let ?dst' = "take (unat got) dst @ take (unat toRead) (r_incoming ob)
                            @ drop (unat got + n) dst"
        have gl: "unat got \<le> length dst"
          using Cons.prems(1,2) by (simp add: word_le_nat_alt)
        have nl: "unat got + n \<le> length dst"
          using n(2,3) Cons.prems(1) by (simp add: word_le_nat_alt)
        have ld: "length ?dst' = length dst" using gl nl n(1) by simp
        have tk: "take (unat got) ?dst' = take (unat got) dst" using gl by simp
        have dr: "\<And>k. unat got + n \<le> k \<Longrightarrow> drop k ?dst' = drop k dst"
        proof -
          fix k assume k: "unat got + n \<le> k"
          have "length (take (unat got) dst @ take (unat toRead) (r_incoming ob)) = unat got + n"
            using gl n(1) by simp
          then have "drop (unat got + n) ?dst' = drop (unat got + n) dst"
            by (metis append.assoc append_eq_conv_conj)
          then have "drop (k - (unat got + n)) (drop (unat got + n) ?dst')
               = drop (k - (unat got + n)) (drop (unat got + n) dst)" by simp
          then show "drop k ?dst' = drop k dst" using k by (simp del: drop_append)
        qed
        have step: "readExactly_loop (ob # obs) len dst got startTime =
            (if int n > 0
             then readExactly_loop obs len ?dst' (got + word_of_int (int n)) (r_millis_after ob)
             else readExactly_loop obs len ?dst' got startTime)"
          using True nto av n(5) by (simp add: toRead_def Let_def)
        show ?thesis
        proof (cases "n > 0")
          case pos: True
          then have "readExactly_loop obs len ?dst' (got + of_nat n) (r_millis_after ob) = Some res"
            using step Cons.prems(3) by simp
          from Cons.IH [OF _ n(3) this] ld Cons.prems(1)
          obtain r got' dst' where r: "res = Inr (r, got', dst')" "(r \<longleftrightarrow> got' = len)"
             "got + of_nat n \<le> got'" "got' \<le> len" "length dst' = length ?dst'"
             "take (unat (got + of_nat n)) dst' = take (unat (got + of_nat n)) ?dst'"
             "drop (unat got') dst' = drop (unat got') ?dst'"
            by auto
          have g1: "got \<le> got'" using n(4) r(3) by (rule order_trans)
          have "take (unat got) (take (unat (got + of_nat n)) dst')
               = take (unat got) (take (unat (got + of_nat n)) ?dst')"
            using r(6) by simp
          then have g2: "take (unat got) dst' = take (unat got) dst"
            using tk n(2) by (simp add: min_def del: take_append)
          have "unat got + n \<le> unat got'" using r(3) n(2) by (simp add: word_le_nat_alt)
          then have g3: "drop (unat got') dst' = drop (unat got') dst" using r(7) dr by simp
          show ?thesis using r(1,2,4,5) ld g1 g2 g3 by auto
        next
          case z: False
          then have n0: "n = 0" by simp
          have "length (take (unat toRead) (r_incoming ob)) = 0" using n0 n(1) by simp
          then have "take (unat toRead) (r_incoming ob) = []" by (simp only: length_0_conv)
          then have "?dst' = dst" using n0 by auto
          then have "readExactly_loop obs len dst got startTime = Some res"
            using step Cons.prems(3) n0 by simp
          then show ?thesis using Cons.IH [OF Cons.prems(1,2)] by blast
        qed
      qed
    qed
  qed
qed

lemma quiet_step:
  assumes "got < len" "unat len \<le> length dst" "quiet startTime ob"
  shows "readExactly_loop (ob # obs) len dst got startTime
       = readExactly_loop obs len dst got startTime"
proof (cases "r_available ob > 0")
  case False
  then show ?thesis using assms by (simp add: quiet_def)
next
  case True
  then have e: "r_incoming ob = []" using assms(3) by (auto simp: quiet_def)
  have "unat got \<le> length dst" using assms(1,2) by (simp add: word_less_nat_alt)
  then have "client_read [] dst got k = Inr (0, dst)" for k
    by (simp add: client_read_def write_bytes_def)
  then show ?thesis using True e assms by (simp add: quiet_def Let_def)
qed

lemma quiet_prefix:
  assumes "got < len" "unat len \<le> length dst" "\<forall>ob\<in>set qs. quiet startTime ob"
  shows "readExactly_loop (qs @ obs) len dst got startTime
       = readExactly_loop obs len dst got startTime"
  using assms(3)
proof (induction qs)
  case Nil
  then show ?case by simp
next
  case (Cons q qs)
  then show ?case using quiet_step [OF assms(1,2), of startTime q "qs @ obs"] by simp
qed

lemma restart_step:
  assumes g: "got < len" and l: "unat len \<le> length dst"
      and c: "r_connected ob" and nt: "\<not> r_millis ob - startTime > timeout"
      and av: "0 < r_available ob" "r_available ob < 2 ^ 31" and inc: "r_incoming ob \<noteq> []"
  shows "\<exists>n dst'. 0 < n \<and> unat (got + of_nat n) = unat got + n \<and> got + of_nat n \<le> len \<and>
           readExactly_loop (ob # obs) len dst got startTime
             = readExactly_loop obs len dst' (got + of_nat n) (r_millis_after ob)"
proof -
  define toRead :: size_t where "toRead = min (word_of_int (r_available ob)) (len - got)"
  have tle: "toRead \<le> len - got" by (simp add: toRead_def)
  have gle: "got \<le> len" using g by simp
  obtain n where n: "n = length (take (unat toRead) (r_incoming ob))"
      "unat (got + of_nat n) = unat got + n" "got + of_nat n \<le> len"
      "client_read (r_incoming ob) dst got toRead =
         Inr (int n, take (unat got) dst @ take (unat toRead) (r_incoming ob)
                      @ drop (unat got + n) dst)"
    using read_chunk [OF gle l tle, of "r_incoming ob"] by blast
  define m where "m = nat (r_available ob)"
  have m: "r_available ob = int m" "0 < m" "m < 2 ^ 31" using av by (simp_all add: m_def)
  have "m < 2 ^ 32" using m(3) by simp
  then have "unat (of_nat m :: size_t) = m" by (simp add: unat_of_nat)
  then have "(of_nat m :: size_t) \<noteq> 0" using m(2) by auto
  then have a0: "(word_of_int (r_available ob) :: size_t) \<noteq> 0" unfolding m(1) by simp
  have "len - got \<noteq> 0" using g by simp
  then have "toRead \<noteq> 0" using a0 unfolding toRead_def min_def by presburger
  then have "0 < unat toRead" by (simp add: unat_gt_0)
  then have pos: "0 < n" using n(1) inc by simp
  have "readExactly_loop (ob # obs) len dst got startTime =
      readExactly_loop obs len (take (unat got) dst @ take (unat toRead) (r_incoming ob)
                      @ drop (unat got + n) dst) (got + of_nat n) (r_millis_after ob)"
  proof -
    have "readExactly_loop (ob # obs) len dst got startTime =
       (case client_read (r_incoming ob) dst got toRead of
              Inl f \<Rightarrow> Some (Inl f)
            | Inr (chunk, dst') \<Rightarrow>
                if chunk > 0 then
                  readExactly_loop obs len dst' (got + word_of_int chunk) (r_millis_after ob)
                else readExactly_loop obs len dst' got startTime)"
      using g c nt av(1) unfolding toRead_def by (simp add: Let_def)
    then show ?thesis unfolding n(4) using pos by simp
  qed
  with pos n(2,3) show ?thesis by blast
qed

lemma readExactly_loop_done:
  "readExactly_loop obs len dst len startTime = Some (Inr (True, len, dst))"
  by (cases obs) simp_all

lemma write_write:
  assumes "g + length bs + length cs \<le> length dst"
  shows "take (g + length bs) (take g dst @ bs @ drop (g + length bs) dst) @ cs
           @ drop (g + length bs + length cs) (take g dst @ bs @ drop (g + length bs) dst)
         = take g dst @ (bs @ cs) @ drop (g + length (bs @ cs)) dst"
proof -
  have l: "length (take g dst) = g" using assms by simp
  have a: "take (g + length bs) (take g dst @ bs @ drop (g + length bs) dst) = take g dst @ bs"
    using l by simp
  have b: "drop (g + length bs + length cs) (take g dst @ bs @ drop (g + length bs) dst)
         = drop (g + length bs + length cs) dst"
    using l by (simp add: add.commute add.left_commute)
  show ?thesis unfolding a b by (simp add: add.assoc)
qed

lemma read_step:
  assumes g: "got < len" and l: "unat len \<le> length dst"
      and c: "r_connected ob" and nt: "\<not> r_millis ob - startTime > timeout"
      and av: "r_available ob < 2 ^ 31"
      and bs: "bs = take (unat len - unat got) (offered ob)"
  shows "readExactly_loop (ob # obs) len dst got startTime =
           (if offered ob = [] then readExactly_loop obs len dst got startTime
            else readExactly_loop obs len
                   (take (unat got) dst @ bs @ drop (unat got + length bs) dst)
                   (got + of_nat (length bs)) (r_millis_after ob))"
    and "unat (got + of_nat (length bs)) = unat got + length bs"
    and "unat got + length bs \<le> unat len"
    and "offered ob \<noteq> [] \<Longrightarrow> bs \<noteq> []"
proof -
  have gl: "unat got < unat len" using g by (simp add: word_less_nat_alt)
  have gle: "got \<le> len" using g by simp
  have sub: "unat (len - got) = unat len - unat got" using gle by (simp add: unat_sub)
  show nb: "unat got + length bs \<le> unat len" using bs gl by simp
  have un: "unat (of_nat (length bs) :: size_t) = length bs"
    using nb by (intro le_unat_uoi [of _ len]) simp
  have "unat got + unat (of_nat (length bs) :: size_t) < 2 ^ LENGTH(32)"
    using nb un unsigned_less [of len, where 'a = nat] by simp
  then show u: "unat (got + of_nat (length bs)) = unat got + length bs"
    using un by (simp only: unat_add_lem [THEN iffD1])
  show ne: "bs \<noteq> []" if "offered ob \<noteq> []" using that bs gl by simp
  show "readExactly_loop (ob # obs) len dst got startTime =
           (if offered ob = [] then readExactly_loop obs len dst got startTime
            else readExactly_loop obs len
                   (take (unat got) dst @ bs @ drop (unat got + length bs) dst)
                   (got + of_nat (length bs)) (r_millis_after ob))"
  proof (cases "r_available ob > 0")
    case False
    then have "offered ob = []" by (simp add: offered_def)
    then show ?thesis using False g c nt by simp
  next
    case True
    define m where "m = nat (r_available ob)"
    have m: "r_available ob = int m" "0 < m" using True by (simp_all add: m_def)
    have m3: "m < 2 ^ 31" using av True unfolding m_def by (auto simp: nat_less_iff)
    have um: "unat (word_of_int (r_available ob) :: size_t) = m"
      unfolding m(1) using m3 by (simp add: unat_of_nat)
    define toRead :: size_t where "toRead = min (word_of_int (r_available ob)) (len - got)"
    have ut: "unat toRead = min m (unat len - unat got)"
      using um sub by (simp add: toRead_def min_def word_le_nat_alt)
    have of: "offered ob = take m (r_incoming ob)" using True by (simp add: offered_def m_def)
    have tk: "take (unat toRead) (r_incoming ob) = bs"
      unfolding ut bs of by (simp add: min.commute)
    have dl: "unat got + length bs \<le> length dst" using nb l by simp
    have cr: "client_read (r_incoming ob) dst got toRead =
        Inr (int (length bs), take (unat got) dst @ bs @ drop (unat got + length bs) dst)"
      using dl unfolding client_read_def Let_def tk write_bytes_def by simp
    have step: "readExactly_loop (ob # obs) len dst got startTime =
       (case client_read (r_incoming ob) dst got toRead of
              Inl f \<Rightarrow> Some (Inl f)
            | Inr (chunk, dst') \<Rightarrow>
                if chunk > 0 then
                  readExactly_loop obs len dst' (got + word_of_int chunk) (r_millis_after ob)
                else readExactly_loop obs len dst' got startTime)"
      using g c nt True unfolding toRead_def by (simp add: Let_def)
    show ?thesis
    proof (cases "offered ob = []")
      case e: True
      then have "bs = []" using bs by simp
      then show ?thesis using e unfolding step cr by simp
    next
      case e: False
      then have "bs \<noteq> []" by (rule ne)
      then show ?thesis using e unfolding step cr by simp
    qed
  qed
qed

lemma read_run:
  assumes "unat len \<le> length dst" "got \<le> len"
      and "\<forall>ob\<in>set obs. r_connected ob \<and> r_available ob < 2 ^ 31"
      and "timely startTime obs"
  shows "readExactly_loop (obs @ rest) len dst got startTime =
     (if unat len \<le> unat got + length (concat (map offered obs))
      then Some (Inr (True, len,
             take (unat got) dst @ take (unat len - unat got) (concat (map offered obs))
               @ drop (unat len) dst))
      else readExactly_loop rest len
             (take (unat got) dst @ concat (map offered obs)
               @ drop (unat got + length (concat (map offered obs))) dst)
             (got + of_nat (length (concat (map offered obs)))) (end_time startTime obs))"
  using assms
proof (induction obs arbitrary: dst got startTime)
  case Nil
  show ?case
  proof (cases "got = len")
    case True
    then show ?thesis by (simp add: readExactly_loop_done)
  next
    case False
    then have "got < len" using Nil.prems(2) by simp
    then have "unat got < unat len" by (simp add: word_less_nat_alt)
    then show ?thesis by simp
  qed
next
  case (Cons ob obs)
  let ?data = "concat (map offered obs)"
  show ?case
  proof (cases "got = len")
    case True
    then show ?thesis by (simp add: readExactly_loop_done)
  next
    case False
    then have g: "got < len" using Cons.prems(2) by simp
    have gl: "unat got < unat len" using g by (simp add: word_less_nat_alt)
    have c: "r_connected ob" and av: "r_available ob < 2 ^ 31" using Cons.prems(3) by simp_all
    have nt: "\<not> r_millis ob - startTime > timeout" using Cons.prems(4) by simp
    have rest3: "\<forall>ob\<in>set obs. r_connected ob \<and> r_available ob < 2 ^ 31"
      using Cons.prems(3) by simp
    define bs where "bs = take (unat len - unat got) (offered ob)"
    note st = read_step [OF g Cons.prems(1) c nt av bs_def]
    show ?thesis
    proof (cases "offered ob = []")
      case e: True
      have t: "timely startTime obs" using Cons.prems(4) e by simp
      have "readExactly_loop ((ob # obs) @ rest) len dst got startTime
          = readExactly_loop (obs @ rest) len dst got startTime"
        using st(1) [of "obs @ rest"] e by simp
      then show ?thesis
        unfolding Cons.IH [OF Cons.prems(1,2) rest3 t] using e by simp
    next
      case e: False
      let ?dst1 = "take (unat got) dst @ bs @ drop (unat got + length bs) dst"
      let ?got1 = "got + of_nat (length bs)"
      have t: "timely (r_millis_after ob) obs" using Cons.prems(4) e by simp
      have u: "unat ?got1 = unat got + length bs" by (rule st(2))
      have nb: "unat got + length bs \<le> unat len" by (rule st(3))
      have g1: "?got1 \<le> len" using u nb by (simp add: word_le_nat_alt)
      have gd: "unat got \<le> length dst" using gl Cons.prems(1) by simp
      have l1: "unat len \<le> length ?dst1" using Cons.prems(1) nb gd by simp
      have lt: "length (take (unat got) dst) = unat got" using gd by simp
      have run: "readExactly_loop ((ob # obs) @ rest) len dst got startTime
          = readExactly_loop (obs @ rest) len ?dst1 ?got1 (r_millis_after ob)"
        using st(1) [of "obs @ rest"] e by simp
      have et: "end_time startTime (ob # obs) = end_time (r_millis_after ob) obs"
        using e by simp
      have cc: "concat (map offered (ob # obs)) = offered ob @ ?data" by simp
      have tk1: "take (unat got + length bs) ?dst1 = take (unat got) dst @ bs"
        using lt by simp
      have dr1: "drop (unat got + length bs + k) ?dst1 = drop (unat got + length bs + k) dst" for k
        using lt by (simp add: add.commute add.left_commute)
      show ?thesis
      proof (cases "length (offered ob) \<le> unat len - unat got")
        case fit: True
        then have b: "bs = offered ob" by (simp add: bs_def)
        have cb: "concat (map offered (ob # obs)) = bs @ ?data" using b by simp
        have len_eq: "unat ?got1 + length ?data = unat got + length (bs @ ?data)"
          using u by simp
        show ?thesis
        proof (cases "unat len \<le> unat ?got1 + length ?data")
          case True
          have ih: "readExactly_loop (obs @ rest) len ?dst1 ?got1 (r_millis_after ob)
              = Some (Inr (True, len, take (unat ?got1) ?dst1
                   @ take (unat len - unat ?got1) ?data @ drop (unat len) ?dst1))"
            using Cons.IH [OF l1 g1 rest3 t] True by (simp only: if_True)
          have "unat len - unat got = length bs + (unat len - unat ?got1)"
            using u nb by simp
          then have tk: "take (unat len - unat got) (bs @ ?data)
               = bs @ take (unat len - unat ?got1) ?data"
            by simp
          obtain k where k: "unat len = unat got + length bs + k"
            using nb by (metis le_Suc_ex)
          have d: "drop (unat len) ?dst1 = drop (unat len) dst" unfolding k by (rule dr1)
          have a: "take (unat ?got1) ?dst1 = take (unat got) dst @ bs"
            unfolding u by (rule tk1)
          have e1: "take (unat ?got1) ?dst1 @ take (unat len - unat ?got1) ?data
                 @ drop (unat len) ?dst1
               = take (unat got) dst @ take (unat len - unat got) (bs @ ?data)
                 @ drop (unat len) dst"
            unfolding tk a d by simp
          have c: "unat len \<le> unat got + length (bs @ ?data)"
            using True len_eq by simp
          show ?thesis unfolding run ih cb e1 using c by (simp only: if_True)
        next
          case False
          have ih: "readExactly_loop (obs @ rest) len ?dst1 ?got1 (r_millis_after ob)
              = readExactly_loop rest len
                  (take (unat ?got1) ?dst1 @ ?data @ drop (unat ?got1 + length ?data) ?dst1)
                  (?got1 + of_nat (length ?data)) (end_time (r_millis_after ob) obs)"
            using Cons.IH [OF l1 g1 rest3 t] False by (simp only: if_False)
          have "unat got + length bs + length ?data \<le> length dst"
            using False u Cons.prems(1) by simp
          from write_write [OF this]
          have e1: "take (unat ?got1) ?dst1 @ ?data @ drop (unat ?got1 + length ?data) ?dst1
               = take (unat got) dst @ (bs @ ?data)
                 @ drop (unat got + length (bs @ ?data)) dst"
            unfolding u .
          have e2: "?got1 + of_nat (length ?data) = got + of_nat (length (bs @ ?data))"
            by simp
          have c: "\<not> unat len \<le> unat got + length (bs @ ?data)"
            using False len_eq by simp
          show ?thesis unfolding run ih cb et e1 e2 using c by (simp only: if_False)
        qed
      next
        case over: False
        then have lb: "length bs = unat len - unat got" by (simp add: bs_def)
        have ul: "unat ?got1 = unat len" using u lb gl by simp
        then have gl1: "?got1 = len" by (simp add: word_unat_eq_iff)
        have tk: "take (unat len - unat got) (offered ob @ ?data) = bs"
          using over by (simp add: bs_def)
        have "unat got + length bs = unat len" using lb gl by simp
        then have "?dst1 = take (unat got) dst @ bs @ drop (unat len) dst" by simp
        then have "readExactly_loop (obs @ rest) len ?dst1 ?got1 (r_millis_after ob)
            = Some (Inr (True, len, take (unat got) dst @ bs @ drop (unat len) dst))"
          unfolding gl1 by (simp add: readExactly_loop_done)
        moreover have "unat len \<le> unat got + length (offered ob @ ?data)"
          using over by simp
        ultimately show ?thesis unfolding run cc tk by simp
      qed
    qed
  qed
qed

text \<open>
  Claim C8. Against any observations of the connection and the clock, with a destination
  of at least \<open>len\<close> bytes, no access is out of bounds and:

  \<^item> when \<open>readExactly\<close> returns, it returns true if and only if \<open>got = len\<close>, the number
    of bytes it wrote into \<open>dst\<close> (never more than \<open>len\<close>; the bytes of \<open>dst\<close> from \<open>got\<close>
    on are untouched);

  \<^item> over a script \<open>os\<close> on which the connection stays up and the guard never expires
    since the last read, if the iterations are offered at least \<open>len\<close> bytes in all then
    \<open>readExactly\<close> returns true with \<open>got = len\<close> and the first \<open>len\<close> offered bytes in
    \<open>dst\<close>, however long the script lasts in total and in however many pieces the bytes
    come (a read may deliver fewer bytes than \<^verbatim>\<open>available()\<close> announced);

  \<^item> if they are offered fewer than \<open>len\<close> bytes, the loop is still waiting at the end of
    \<open>os\<close>, and a next iteration that finds the clock more than \<open>timeout\<close> = 5000 ms past
    the last read, or the connection lost, makes \<open>readExactly\<close> return false with \<open>got\<close>
    the number of bytes offered so far and exactly these bytes in \<open>dst\<close>;

  \<^item> from any loop state with \<open>got < len\<close>, an iteration that finds the guard expired or
    the connection lost, after any number of iterations that read nothing, returns false
    and leaves \<open>got\<close> and \<open>dst\<close> as they are;

  \<^item> a successful partial read restarts the guard: the loop goes on with \<open>startTime\<close> set
    to the clock after the read, whatever it was before, so the guard bounds the time
    since the last read and not the total duration.
\<close>

theorem readExactly_contract:
  assumes "unat len \<le> length dst"
  shows "(readExactly obs t0 dst len = Some res \<longrightarrow>
           (\<exists>r got dst'. res = Inr (r, got, dst') \<and> (r \<longleftrightarrow> got = len) \<and> got \<le> len \<and>
              length dst' = length dst \<and> drop (unat got) dst' = drop (unat got) dst)) \<and>
         ((\<forall>q\<in>set os. r_connected q \<and> r_available q < 2 ^ 31) \<and> timely t0 os \<longrightarrow>
            (unat len \<le> length (concat (map offered os)) \<longrightarrow>
               readExactly (os @ rest) t0 dst len
                 = Some (Inr (True, len,
                     take (unat len) (concat (map offered os)) @ drop (unat len) dst))) \<and>
            (length (concat (map offered os)) < unat len \<longrightarrow>
               unat (of_nat (length (concat (map offered os))) :: size_t)
                 = length (concat (map offered os)) \<and>
               readExactly os t0 dst len = None \<and>
               (r_connected ob \<and> r_millis ob - end_time t0 os > timeout \<longrightarrow>
                  readExactly (os @ ob # rest) t0 dst len
                    = Some (Inr (False, of_nat (length (concat (map offered os))),
                        concat (map offered os)
                          @ drop (length (concat (map offered os))) dst))) \<and>
               (\<not> r_connected ob \<longrightarrow>
                  readExactly (os @ ob # rest) t0 dst len
                    = Some (Inr (False, of_nat (length (concat (map offered os))),
                        concat (map offered os)
                          @ drop (length (concat (map offered os))) dst))))) \<and>
         (got < len \<and> (\<forall>q\<in>set qs. quiet startTime q) \<and> r_connected ob \<and>
          r_millis ob - startTime > timeout \<longrightarrow>
            readExactly_loop (qs @ ob # rest) len dst got startTime
              = Some (Inr (False, got, dst))) \<and>
         (got < len \<and> (\<forall>q\<in>set qs. quiet startTime q) \<and> \<not> r_connected ob \<longrightarrow>
            readExactly_loop (qs @ ob # rest) len dst got startTime
              = Some (Inr (False, got, dst))) \<and>
         (got < len \<and> r_connected ob \<and> \<not> r_millis ob - startTime > timeout \<and>
          0 < r_available ob \<and> r_available ob < 2 ^ 31 \<and> r_incoming ob \<noteq> [] \<longrightarrow>
            (\<exists>n dst'. 0 < n \<and> unat (got + of_nat n) = unat got + n \<and> got + of_nat n \<le> len \<and>
               readExactly_loop (ob # rest) len dst got startTime
                 = readExactly_loop rest len dst' (got + of_nat n) (r_millis_after ob)))"
proof -
  have c1: "readExactly obs t0 dst len = Some res \<longrightarrow>
           (\<exists>r got dst'. res = Inr (r, got, dst') \<and> (r \<longleftrightarrow> got = len) \<and> got \<le> len \<and>
              length dst' = length dst \<and> drop (unat got) dst' = drop (unat got) dst)"
  proof
    assume "readExactly obs t0 dst len = Some res"
    then have "readExactly_loop obs len dst 0 t0 = Some res" by (simp add: readExactly_def)
    from readExactly_loop_result [OF assms _ this]
    show "\<exists>r got dst'. res = Inr (r, got, dst') \<and> (r \<longleftrightarrow> got = len) \<and> got \<le> len \<and>
              length dst' = length dst \<and> drop (unat got) dst' = drop (unat got) dst"
      by auto
  qed
  let ?data = "concat (map offered os)"
  let ?n = "length ?data"
  have c2: "(\<forall>q\<in>set os. r_connected q \<and> r_available q < 2 ^ 31) \<and> timely t0 os \<longrightarrow>
            (unat len \<le> ?n \<longrightarrow>
               readExactly (os @ rest) t0 dst len
                 = Some (Inr (True, len, take (unat len) ?data @ drop (unat len) dst))) \<and>
            (?n < unat len \<longrightarrow>
               unat (of_nat ?n :: size_t) = ?n \<and>
               readExactly os t0 dst len = None \<and>
               (r_connected ob \<and> r_millis ob - end_time t0 os > timeout \<longrightarrow>
                  readExactly (os @ ob # rest) t0 dst len
                    = Some (Inr (False, of_nat ?n, ?data @ drop ?n dst))) \<and>
               (\<not> r_connected ob \<longrightarrow>
                  readExactly (os @ ob # rest) t0 dst len
                    = Some (Inr (False, of_nat ?n, ?data @ drop ?n dst))))"
  proof (intro impI)
    assume h: "(\<forall>q\<in>set os. r_connected q \<and> r_available q < 2 ^ 31) \<and> timely t0 os"
    then have h1: "\<forall>q\<in>set os. r_connected q \<and> r_available q < 2 ^ 31"
      and h2: "timely t0 os" by blast+
    have z: "(0 :: size_t) \<le> len" by simp
    have run: "readExactly (os @ r) t0 dst len =
       (if unat len \<le> ?n
        then Some (Inr (True, len, take (unat len) ?data @ drop (unat len) dst))
        else readExactly_loop r len (?data @ drop ?n dst) (of_nat ?n) (end_time t0 os))" for r
      unfolding readExactly_def read_run [OF assms z h1 h2, of r] by simp
    have A: "unat len \<le> ?n \<longrightarrow>
               readExactly (os @ rest) t0 dst len
                 = Some (Inr (True, len, take (unat len) ?data @ drop (unat len) dst))"
      unfolding run [of rest] by simp
    have B: "unat (of_nat ?n :: size_t) = ?n \<and>
               readExactly os t0 dst len = None \<and>
               (r_connected ob \<and> r_millis ob - end_time t0 os > timeout \<longrightarrow>
                  readExactly (os @ ob # rest) t0 dst len
                    = Some (Inr (False, of_nat ?n, ?data @ drop ?n dst))) \<and>
               (\<not> r_connected ob \<longrightarrow>
                  readExactly (os @ ob # rest) t0 dst len
                    = Some (Inr (False, of_nat ?n, ?data @ drop ?n dst)))"
      if lt: "?n < unat len"
    proof -
      have nle: "\<not> unat len \<le> ?n" using lt by simp
      have "?n \<le> unat len" using lt by simp
      then have un: "unat (of_nat ?n :: size_t) = ?n" by (rule le_unat_uoi)
      then have g: "(of_nat ?n :: size_t) < len" using lt by (simp add: word_less_nat_alt)
      then have ne: "(of_nat ?n :: size_t) \<noteq> len" by simp
      have r0: "readExactly os t0 dst len = None"
        using run [of "[]"] nle g by simp
      have r1: "readExactly (os @ ob # rest) t0 dst len
                    = Some (Inr (False, of_nat ?n, ?data @ drop ?n dst))"
        if "r_connected ob \<and> r_millis ob - end_time t0 os > timeout"
        unfolding run [of "ob # rest"] using nle g that by simp
      have r2: "readExactly (os @ ob # rest) t0 dst len
                    = Some (Inr (False, of_nat ?n, ?data @ drop ?n dst))"
        if "\<not> r_connected ob"
        unfolding run [of "ob # rest"] using nle ne that by simp
      show ?thesis using un r0 r1 r2 by blast
    qed
    show "(unat len \<le> ?n \<longrightarrow>
               readExactly (os @ rest) t0 dst len
                 = Some (Inr (True, len, take (unat len) ?data @ drop (unat len) dst))) \<and>
            (?n < unat len \<longrightarrow>
               unat (of_nat ?n :: size_t) = ?n \<and>
               readExactly os t0 dst len = None \<and>
               (r_connected ob \<and> r_millis ob - end_time t0 os > timeout \<longrightarrow>
                  readExactly (os @ ob # rest) t0 dst len
                    = Some (Inr (False, of_nat ?n, ?data @ drop ?n dst))) \<and>
               (\<not> r_connected ob \<longrightarrow>
                  readExactly (os @ ob # rest) t0 dst len
                    = Some (Inr (False, of_nat ?n, ?data @ drop ?n dst))))"
      using A B by blast
  qed
  have c3: "got < len \<and> (\<forall>q\<in>set qs. quiet startTime q) \<and> r_connected ob \<and>
          r_millis ob - startTime > timeout \<longrightarrow>
            readExactly_loop (qs @ ob # rest) len dst got startTime
              = Some (Inr (False, got, dst))"
  proof
    assume a: "got < len \<and> (\<forall>q\<in>set qs. quiet startTime q) \<and> r_connected ob \<and>
          r_millis ob - startTime > timeout"
    then have "readExactly_loop (qs @ ob # rest) len dst got startTime
        = readExactly_loop (ob # rest) len dst got startTime"
      using quiet_prefix [OF _ assms, of got qs startTime "ob # rest"] by blast
    then show "readExactly_loop (qs @ ob # rest) len dst got startTime
        = Some (Inr (False, got, dst))" using a by simp
  qed
  have c4: "got < len \<and> (\<forall>q\<in>set qs. quiet startTime q) \<and> \<not> r_connected ob \<longrightarrow>
            readExactly_loop (qs @ ob # rest) len dst got startTime
              = Some (Inr (False, got, dst))"
  proof
    assume a: "got < len \<and> (\<forall>q\<in>set qs. quiet startTime q) \<and> \<not> r_connected ob"
    then have "readExactly_loop (qs @ ob # rest) len dst got startTime
        = readExactly_loop (ob # rest) len dst got startTime"
      using quiet_prefix [OF _ assms, of got qs startTime "ob # rest"] by blast
    then show "readExactly_loop (qs @ ob # rest) len dst got startTime
        = Some (Inr (False, got, dst))" using a by auto
  qed
  have c5: "got < len \<and> r_connected ob \<and> \<not> r_millis ob - startTime > timeout \<and>
          0 < r_available ob \<and> r_available ob < 2 ^ 31 \<and> r_incoming ob \<noteq> [] \<longrightarrow>
            (\<exists>n dst'. 0 < n \<and> unat (got + of_nat n) = unat got + n \<and> got + of_nat n \<le> len \<and>
               readExactly_loop (ob # rest) len dst got startTime
                 = readExactly_loop rest len dst' (got + of_nat n) (r_millis_after ob))"
    using restart_step [of got len dst ob startTime rest] assms by blast
  show ?thesis using c1 c2 c3 c4 c5 by (intro conjI)
qed

theorem readExactly_contract_witness:
  "unat (2 :: size_t) \<le> length [0, 0 :: byte] \<and>
   readExactly [observe True 4000 [0xAA], observe True 6000 [], observe True 8000 [0xBB]]
     0 [0, 0] 2 = Some (Inr (True, 2, [0xAA, 0xBB])) \<and>
   (1 :: size_t) < 2 \<and> quiet 4000 (observe True 6000 []) \<and>
   r_millis (observe True 9001 [0xBB]) - 4000 > timeout \<and>
   readExactly_loop ([observe True 6000 []] @ observe True 9001 [0xBB] # []) 2 [0xAA, 0] 1 4000
     = Some (Inr (False, 1, [0xAA, 0])) \<and>
   readExactly_loop ([observe True 6000 []] @ observe False 7000 [0xBB] # []) 2 [0xAA, 0] 1 4000
     = Some (Inr (False, 1, [0xAA, 0])) \<and>
   (\<exists>n dst'. 0 < n \<and>
      readExactly_loop (observe True 4000 [0xAA] # [observe True 8000 [0xBB]]) 2 [0, 0] 0 0
        = readExactly_loop [observe True 8000 [0xBB]] 2 dst' (0 + of_nat n) 4000) \<and>
   unat (4 :: size_t) \<le> length [0, 0, 0, 0, 9 :: byte] \<and>
   timely 0 [observe True 3000 [],
             \<lparr>r_connected = True, r_millis = 4000, r_available = 4, r_incoming = [1, 2],
               r_millis_after = 4000\<rparr>,
             observe True 8000 [3], observe True 12000 [4, 5, 6]] \<and>
   readExactly ([observe True 3000 [],
             \<lparr>r_connected = True, r_millis = 4000, r_available = 4, r_incoming = [1, 2],
               r_millis_after = 4000\<rparr>,
             observe True 8000 [3], observe True 12000 [4, 5, 6]] @ []) 0 [0, 0, 0, 0, 9] 4
     = Some (Inr (True, 4, [1, 2, 3, 4, 9])) \<and>
   readExactly [\<lparr>r_connected = True, r_millis = 4000, r_available = 4, r_incoming = [1, 2],
               r_millis_after = 4000\<rparr>] 0 [0, 0, 0, 0, 9] 4 = None \<and>
   readExactly ([\<lparr>r_connected = True, r_millis = 4000, r_available = 4, r_incoming = [1, 2],
               r_millis_after = 4000\<rparr>] @ observe True 9001 [7, 8] # []) 0 [0, 0, 0, 0, 9] 4
     = Some (Inr (False, 2, [1, 2, 0, 0, 9])) \<and>
   readExactly ([\<lparr>r_connected = True, r_millis = 4000, r_available = 4, r_incoming = [1, 2],
               r_millis_after = 4000\<rparr>] @ observe False 4500 [7, 8] # []) 0 [0, 0, 0, 0, 9] 4
     = Some (Inr (False, 2, [1, 2, 0, 0, 9]))"
proof -
  have h: "unat (2 :: size_t) \<le> length [0xAA, 0 :: byte]" by simp
  have h0: "unat (2 :: size_t) \<le> length [0, 0 :: byte]" by simp
  have q: "\<forall>q\<in>set [observe True 6000 []]. quiet 4000 q"
    by (simp add: quiet_def observe_def timeout_def)
  have lt: "(1 :: size_t) < 2" by simp
  have late: "r_millis (observe True 9001 [0xBB]) - 4000 > timeout"
    by (simp add: observe_def timeout_def)
  have w1: "readExactly [observe True 4000 [0xAA], observe True 6000 [], observe True 8000 [0xBB]]
     0 [0, 0] 2 = Some (Inr (True, 2, [0xAA, 0xBB]))"
    by (simp add: readExactly_def observe_def timeout_def client_read_def write_bytes_def Let_def)
  have w2: "readExactly_loop ([observe True 6000 []] @ observe True 9001 [0xBB] # []) 2
       [0xAA, 0] 1 4000 = Some (Inr (False, 1, [0xAA, 0]))"
    using readExactly_contract [OF h, where got = 1 and qs = "[observe True 6000 []]"
        and startTime = 4000 and ob = "observe True 9001 [0xBB]" and rest = "[]"] lt q late
    by (simp add: observe_def)
  have w3: "readExactly_loop ([observe True 6000 []] @ observe False 7000 [0xBB] # []) 2
       [0xAA, 0] 1 4000 = Some (Inr (False, 1, [0xAA, 0]))"
    using readExactly_contract [OF h, where got = 1 and qs = "[observe True 6000 []]"
        and startTime = 4000 and ob = "observe False 7000 [0xBB]" and rest = "[]"] lt q
    by (simp add: observe_def)
  have pre: "(0 :: size_t) < 2 \<and> r_connected (observe True 4000 [0xAA]) \<and>
      \<not> r_millis (observe True 4000 [0xAA]) - 0 > timeout \<and>
      0 < r_available (observe True 4000 [0xAA]) \<and>
      r_available (observe True 4000 [0xAA]) < 2 ^ 31 \<and>
      r_incoming (observe True 4000 [0xAA]) \<noteq> []"
    by (simp add: observe_def timeout_def)
  have ma: "r_millis_after (observe True 4000 [0xAA]) = 4000" by (simp add: observe_def)
  obtain n dst' where nd: "0 < n"
      "readExactly_loop (observe True 4000 [0xAA] # [observe True 8000 [0xBB]]) 2 [0, 0] 0 0
          = readExactly_loop [observe True 8000 [0xBB]] 2 dst' (0 + of_nat n)
              (r_millis_after (observe True 4000 [0xAA]))"
    using readExactly_contract [OF h0, where got = 0 and startTime = 0
          and ob = "observe True 4000 [0xAA]" and rest = "[observe True 8000 [0xBB]]"] pre
    by blast
  have w4: "\<exists>n dst'. 0 < n \<and>
      readExactly_loop (observe True 4000 [0xAA] # [observe True 8000 [0xBB]]) 2 [0, 0] 0 0
        = readExactly_loop [observe True 8000 [0xBB]] 2 dst' (0 + of_nat n) 4000"
    using nd unfolding ma by blast
  have qq: "quiet 4000 (observe True 6000 [])" using q by simp
  define short where "short = \<lparr>r_connected = True, r_millis = 4000, r_available = 4,
      r_incoming = [1, 2 :: byte], r_millis_after = 4000\<rparr>"
  define S where "S = [observe True 3000 [], short, observe True 8000 [3],
      observe True 12000 [4, 5, 6]]"
  define dst :: "byte list" where "dst = [0, 0, 0, 0, 9]"
  have h4: "unat (4 :: size_t) \<le> length dst" by (simp add: dst_def)
  have sc: "\<forall>q\<in>set S. r_connected q \<and> r_available q < 2 ^ 31"
    by (simp add: S_def short_def observe_def)
  have st: "timely 0 S"
    by (simp add: S_def short_def observe_def offered_def timeout_def)
  have sd: "concat (map offered S) = [1, 2, 3, 4, 5, 6]"
    by (simp add: S_def short_def observe_def offered_def)
  have tc: "\<forall>q\<in>set [short]. r_connected q \<and> r_available q < 2 ^ 31"
    by (simp add: short_def)
  have tt: "timely 0 [short]" by (simp add: short_def offered_def timeout_def)
  have td: "concat (map offered [short]) = [1, 2]" by (simp add: short_def offered_def)
  have te: "end_time 0 [short] = 4000" by (simp add: short_def offered_def)
  have l1: "r_connected (observe True 9001 [7, 8]) \<and>
            r_millis (observe True 9001 [7, 8]) - end_time 0 [short] > timeout"
    unfolding te by (simp add: observe_def timeout_def)
  have l2: "\<not> r_connected (observe False 4500 [7, 8])" by (simp add: observe_def)
  have "unat (4 :: size_t) \<le> length (concat (map offered S)) \<longrightarrow>
      readExactly (S @ []) 0 dst 4
        = Some (Inr (True, 4, take (unat (4 :: size_t)) (concat (map offered S))
             @ drop (unat (4 :: size_t)) dst))"
    using readExactly_contract [OF h4, where os = S and rest = "[]", of _ 0] sc st
    by blast
  then have w5: "readExactly (S @ []) 0 dst 4 = Some (Inr (True, 4, [1, 2, 3, 4, 9]))"
    unfolding sd by (simp add: dst_def)
  have x: "length (concat (map offered [short])) < unat (4 :: size_t) \<longrightarrow>
      readExactly [short] 0 dst 4 = None \<and>
      (r_connected (observe True 9001 [7, 8]) \<and>
       r_millis (observe True 9001 [7, 8]) - end_time 0 [short] > timeout \<longrightarrow>
         readExactly ([short] @ observe True 9001 [7, 8] # []) 0 dst 4
           = Some (Inr (False, of_nat (length (concat (map offered [short]))),
                concat (map offered [short])
                  @ drop (length (concat (map offered [short]))) dst)))"
    using readExactly_contract [OF h4, where os = "[short]" and rest = "[]"
        and ob = "observe True 9001 [7, 8]", of _ 0] tc tt
    by blast
  have y: "length (concat (map offered [short])) < unat (4 :: size_t) \<longrightarrow>
      (\<not> r_connected (observe False 4500 [7, 8]) \<longrightarrow>
         readExactly ([short] @ observe False 4500 [7, 8] # []) 0 dst 4
           = Some (Inr (False, of_nat (length (concat (map offered [short]))),
                concat (map offered [short])
                  @ drop (length (concat (map offered [short]))) dst)))"
    using readExactly_contract [OF h4, where os = "[short]" and rest = "[]"
        and ob = "observe False 4500 [7, 8]", of _ 0] tc tt
    by blast
  have w6: "readExactly [short] 0 dst 4 = None" using x unfolding td by simp
  have w7: "readExactly ([short] @ observe True 9001 [7, 8] # []) 0 dst 4
           = Some (Inr (False, 2, [1, 2, 0, 0, 9]))"
    using x l1 unfolding td by (simp add: dst_def)
  have w8: "readExactly ([short] @ observe False 4500 [7, 8] # []) 0 dst 4
           = Some (Inr (False, 2, [1, 2, 0, 0, 9]))"
    using y l2 unfolding td by (simp add: dst_def)
  show ?thesis
    using h0 w1 lt qq late w2 w3 w4 h4 st w5 w6 w7 w8
    unfolding S_def short_def dst_def by (intro conjI)
qed

section \<open>Drive cycles refine the cycles on the unconsumed bytes\<close>

lemma content_length: "buffer_inv s \<Longrightarrow> length (content s) = unat (jpegBufferPos s)"
  by (simp add: content_def buffer_inv_def word_le_nat_alt)

lemma read_available_content:
  assumes inv: "buffer_inv s" and st: "steady e"
  shows "\<exists>s2. read_available e s = Inr s2 \<and> buffer_inv s2 \<and> client s2 = client s \<and>
           content s2 = content s @ take (unat MAX_JPEG_SIZE - length (content s)) (incoming e)"
proof -
  let ?p = "unat (jpegBufferPos s)" and ?mem = "jpegBuffer s"
  let ?n = "min (length (incoming e)) (unat MAX_JPEG_SIZE - ?p)"
  have len: "length ?mem = unat MAX_JPEG_SIZE" and ple: "?p \<le> unat MAX_JPEG_SIZE"
    using inv by (simp_all add: buffer_inv_def word_le_nat_alt)
  have av: "available e = int (length (incoming e))" and lt: "length (incoming e) < 2 ^ 31"
    using st by (simp_all add: steady_def)
  have "unat (word_of_int (int (length (incoming e))) :: size_t) = length (incoming e)"
    using lt by (simp add: unat_of_nat)
  then have a: "appended e s = ?n"
    using av by (auto simp: appended_def min_def)
  let ?s' = "s\<lparr>jpegBuffer := take ?p ?mem @ take ?n (incoming e) @ drop (?p + ?n) ?mem,
                  jpegBufferPos := jpegBufferPos s + of_nat ?n,
                  totalBytesReceived := totalBytesReceived s + of_nat ?n\<rparr>"
  have r: "read_available e s = Inr ?s'"
    and u: "unat (jpegBufferPos s + of_nat ?n) = ?p + ?n"
    using read_available_spec [OF inv, of e] unfolding a by blast+
  obtain s2 where s2: "read_available e s = Inr s2" "buffer_inv s2"
    using buffer_inv_read [OF inv, of e] by blast
  have l1: "length (take ?p ?mem) = ?p" using len ple by simp
  have l2: "length (take ?n (incoming e)) = ?n" by simp
  have "content ?s' = content s @ take ?n (incoming e)"
    using l1 l2 u by (simp add: content_def)
  moreover have "take ?n (incoming e) = take (unat MAX_JPEG_SIZE - ?p) (incoming e)"
    by (simp add: min_def)
  moreover have "length (content s) = ?p" using inv by (rule content_length)
  ultimately have "content ?s' = content s @ take (unat MAX_JPEG_SIZE - length (content s)) (incoming e)"
    by simp
  moreover have "client ?s' = client s" by simp
  ultimately show ?thesis using r s2 by auto
qed

lemma overflow_check_content:
  assumes "buffer_inv s"
  shows "content (overflow_check s)
     = (if length (content s) > unat MAX_JPEG_SIZE - 1024 then [] else content s)"
proof -
  have "unat (MAX_JPEG_SIZE - 1024) = unat MAX_JPEG_SIZE - 1024"
    by (simp add: MAX_JPEG_SIZE_def)
  then show ?thesis
    using content_length [OF assms]
    by (simp add: overflow_check_def word_less_nat_alt) (simp add: content_def)
qed

lemma loop_spec:
  assumes st: "steady e" and cl: "client s" and inv: "buffer_inv s"
  shows "\<exists>s'. loop e s = Inr (fst (spec_cycle (content s) (incoming e)), s') \<and>
           client s' \<and> buffer_inv s' \<and>
           content s' = snd (spec_cycle (content s) (incoming e))"
proof -
  have acc: "accept_client e s = s" using st cl by (simp add: accept_client_def steady_def)
  obtain s2 where s2: "read_available e s = Inr s2" "buffer_inv s2" "client s2"
      "content s2 = content s @ take (unat MAX_JPEG_SIZE - length (content s)) (incoming e)"
    using read_available_content [OF inv st] cl by auto
  have le2: "unat (jpegBufferPos s2) \<le> length (jpegBuffer s2)" using s2(2) by (rule buffer_inv_le)
  obtain fr s3 where s3: "decode_frame e s2 = Inr (fr, s3)" "buffer_inv s3"
    using buffer_inv_decode [OF s2(2), of e] by blast
  have cl3: "client s3" using decode_frame_fields(1) [OF s3(1)] s2(3) by simp
  have sc: "(fr, content s3) = (case spec_scan (content s2) of
                        None \<Rightarrow> (None, content s2)
                      | Some (i, j) \<Rightarrow> (Some (take (j + 2 - i) (drop i (content s2))),
                                         drop (j + 2) (content s2)))"
  proof (cases "spec_scan (content s2)")
    case None
    then show ?thesis using decode_frame_none [OF le2, of e] s3(1) by simp
  next
    case (Some ij)
    obtain i j where ij: "ij = (i, j)" by (cases ij)
    have "content s3 = drop (j + 2) (content s2)" "fr = Some (take (j + 2 - i) (drop i (content s2)))"
      using decode_frame_some [OF le2, of i j e] Some ij s3(1) by (auto simp: content_def)
    then show ?thesis using Some ij by simp
  qed
  let ?s' = "print_stats e (overflow_check s3)"
  have h: "handleClient e s = Inr (True, fr, ?s')"
    using acc cl st s2(1) s3(1) by (simp add: handleClient_def Let_def steady_def)
  have l: "loop e s = Inr (fr, ?s')"
    using h st by (simp add: loop_def steady_def)
  have c': "content ?s' = (if length (content s3) > unat MAX_JPEG_SIZE - 1024 then [] else content s3)"
    using overflow_check_content [OF s3(2)] by (simp add: content_def print_stats_fields)
  have i': "buffer_inv ?s'" using s3(2) by (intro buffer_inv_stats buffer_inv_overflow)
  have cl': "client ?s'" using cl3 by (simp add: print_stats_fields overflow_check_fields)
  have "spec_cycle (content s) (incoming e) = (fr, content ?s')"
    unfolding spec_cycle_def Let_def s2(4) [symmetric] sc [symmetric] c' by simp
  then show ?thesis using l i' cl' by auto
qed

lemma run_spec:
  assumes "\<forall>e\<in>set es. steady e" "client s" "buffer_inv s"
  shows "\<exists>s'. run es s = Inr (fst (spec_run (map incoming es) (content s)), s') \<and>
           content s' = snd (spec_run (map incoming es) (content s))"
  using assms
proof (induction es arbitrary: s)
  case Nil
  then show ?case by simp
next
  case (Cons e es)
  obtain s1 where s1: "loop e s = Inr (fst (spec_cycle (content s) (incoming e)), s1)"
      "client s1" "buffer_inv s1" "content s1 = snd (spec_cycle (content s) (incoming e))"
    using loop_spec [of e s] Cons.prems by auto
  obtain s' where s': "run es s1 = Inr (fst (spec_run (map incoming es) (content s1)), s')"
      "content s' = snd (spec_run (map incoming es) (content s1))"
    using Cons.IH [OF _ s1(2,3)] Cons.prems(1) by auto
  show ?case
    using s1(1,4) s' by (simp add: case_prod_unfold)
qed

section \<open>Chunk granularity\<close>

text \<open>
  The frames of a byte sequence, as the specification's scan gives them one after the
  other: the first complete frame, then the frames of what follows its end.
\<close>

function frames_of :: "byte list \<Rightarrow> byte list list" where
  "frames_of xs =
     (case spec_scan xs of
        None \<Rightarrow> []
      | Some (i, j) \<Rightarrow> take (j + 2 - i) (drop i xs) # frames_of (drop (j + 2) xs))"
  by pat_completeness auto
termination
proof (relation "measure length")
  show "wf (measure length)" by simp
next
  fix xs :: "byte list" and ij i j
  assume "spec_scan xs = Some ij" "(i, j) = ij"
  then have "j + 2 \<le> length xs" using spec_scan_bounds [of xs i j] by simp
  then show "(drop (j + 2) xs, xs) \<in> measure length" by simp
qed

declare frames_of.simps [simp del]

lemma frames_of_length: "length (frames_of xs) \<le> length xs"
proof (induction xs rule: frames_of.induct)
  case (1 xs)
  show ?case
  proof (cases "spec_scan xs")
    case None
    then show ?thesis by (simp add: frames_of.simps [of xs])
  next
    case (Some ij)
    obtain i j where ij: "ij = (i, j)" by (cases ij)
    have b: "j + 2 \<le> length xs" using spec_scan_bounds [of xs i j] Some ij by simp
    have "length (frames_of (drop (j + 2) xs)) \<le> length xs - (j + 2)"
      using 1 [OF Some ij [symmetric]] by simp
    then show ?thesis using Some ij b by (simp add: frames_of.simps [of xs])
  qed
qed

lemma spec_find_marker_append:
  assumes "spec_find_marker m xs = Some i"
  shows "spec_find_marker m (xs @ ys) = Some i"
proof -
  have a: "i + 1 < length xs" "xs ! i = 0xFF" "xs ! (i + 1) = m"
      "\<forall>k<i. \<not> (xs ! k = 0xFF \<and> xs ! (k + 1) = m)"
    using assms spec_find_marker_Some [of m xs i] by blast+
  have "\<forall>k<i. \<not> ((xs @ ys) ! k = 0xFF \<and> (xs @ ys) ! (k + 1) = m)"
  proof (intro allI impI)
    fix k assume "k < i"
    then have "k < length xs" "k + 1 < length xs" "\<not> (xs ! k = 0xFF \<and> xs ! (k + 1) = m)"
      using a by simp_all
    then show "\<not> ((xs @ ys) ! k = 0xFF \<and> (xs @ ys) ! (k + 1) = m)"
      by (simp add: nth_append)
  qed
  moreover have "i + 1 < length (xs @ ys)" "(xs @ ys) ! i = 0xFF" "(xs @ ys) ! (i + 1) = m"
    using a by (simp_all add: nth_append)
  ultimately show ?thesis using spec_find_marker_Some [of m "xs @ ys" i] by blast
qed

lemma spec_find_marker_snoc:
  assumes "spec_find_marker m xs = None" "spec_find_marker m (xs @ [b]) = Some i"
  shows "i + 1 = length xs"
proof (rule ccontr)
  assume ne: "i + 1 \<noteq> length xs"
  have a: "i + 1 < length (xs @ [b])" "(xs @ [b]) ! i = 0xFF" "(xs @ [b]) ! (i + 1) = m"
    using assms(2) spec_find_marker_Some [of m "xs @ [b]" i] by blast+
  then have lt: "i + 1 < length xs" using ne by simp
  then have "xs ! i = 0xFF \<and> xs ! (i + 1) = m" using a by (simp add: nth_append)
  then show False using assms(1) lt spec_find_marker_None [of m xs] by blast
qed

lemma spec_scan_append:
  assumes "spec_scan xs = Some (i, j)"
  shows "spec_scan (xs @ ys) = Some (i, j)"
proof -
  obtain k where k: "spec_find_marker 0xD8 xs = Some i"
      "spec_find_marker 0xD9 (drop (i + 2) xs) = Some k" "j = i + 2 + k"
    using assms by (auto simp: spec_scan_def split: option.splits)
  have i2: "i + 2 \<le> length xs" using spec_find_marker_bound [OF k(1)] .
  have "spec_find_marker 0xD8 (xs @ ys) = Some i" using k(1) by (rule spec_find_marker_append)
  moreover have "spec_find_marker 0xD9 (drop (i + 2) (xs @ ys)) = Some k"
    using spec_find_marker_append [OF k(2), of ys] i2 by simp
  ultimately show ?thesis using k(3) by (simp add: spec_scan_def)
qed

lemma spec_scan_snoc:
  assumes "spec_scan xs = None" "spec_scan (xs @ [b]) = Some (i, j)"
  shows "j + 2 = length xs + 1"
proof -
  obtain k where k: "spec_find_marker 0xD8 (xs @ [b]) = Some i"
      "spec_find_marker 0xD9 (drop (i + 2) (xs @ [b])) = Some k" "j = i + 2 + k"
    using assms(2) by (auto simp: spec_scan_def split: option.splits)
  have kb: "k + 2 \<le> length (drop (i + 2) (xs @ [b]))" using spec_find_marker_bound [OF k(2)] .
  then have i2: "i + 2 \<le> length xs" by simp
  have soi: "spec_find_marker 0xD8 xs = Some i"
  proof (cases "spec_find_marker 0xD8 xs")
    case None
    then have "i + 1 = length xs" using k(1) by (rule spec_find_marker_snoc)
    then show ?thesis using i2 by simp
  next
    case (Some i')
    then have "spec_find_marker 0xD8 (xs @ [b]) = Some i'" by (rule spec_find_marker_append)
    then show ?thesis using k(1) Some by simp
  qed
  then have none: "spec_find_marker 0xD9 (drop (i + 2) xs) = None"
    using assms(1) by (auto simp: spec_scan_def split: option.splits)
  have "drop (i + 2) (xs @ [b]) = drop (i + 2) xs @ [b]" using i2 by simp
  then have "k + 1 = length (drop (i + 2) xs)"
    using spec_find_marker_snoc [OF none, of b k] k(2) by simp
  then show ?thesis using k(3) i2 by simp
qed

lemma spec_cycle_small:
  assumes "length c + length inc \<le> unat MAX_JPEG_SIZE - 1024"
  shows "spec_cycle c inc =
     (case spec_scan (c @ inc) of
        None \<Rightarrow> (None, c @ inc)
      | Some (i, j) \<Rightarrow> (Some (take (j + 2 - i) (drop i (c @ inc))), drop (j + 2) (c @ inc)))"
proof -
  have t: "take (unat MAX_JPEG_SIZE - length c) inc = inc" using assms by simp
  show ?thesis
  proof (cases "spec_scan (c @ inc)")
    case None
    then show ?thesis using assms unfolding spec_cycle_def Let_def t by simp
  next
    case (Some ij)
    obtain i j where ij: "ij = (i, j)" by (cases ij)
    have "length (drop (j + 2) (c @ inc)) \<le> unat MAX_JPEG_SIZE - 1024" using assms by simp
    then show ?thesis using Some ij unfolding spec_cycle_def Let_def t by simp
  qed
qed

lemma take_drop_prefix:
  "i + n \<le> length xs \<Longrightarrow> take n (drop i (xs @ ys)) = take n (drop i xs)"
  by simp

lemma spec_scan_Nil: "spec_scan [] = None"
  by (simp add: spec_scan_def)

lemma bytes_run:
  assumes "spec_scan c = None" "length c + length bs \<le> unat MAX_JPEG_SIZE - 1024"
  shows "fst (spec_run (map (\<lambda>b. [b]) bs) c) = frames_of (c @ bs)"
  using assms
proof (induction bs arbitrary: c)
  case Nil
  then show ?case by (simp add: frames_of.simps [of c])
next
  case (Cons b bs)
  have small: "length c + length [b] \<le> unat MAX_JPEG_SIZE - 1024" using Cons.prems(2) by simp
  show ?case
  proof (cases "spec_scan (c @ [b])")
    case None
    have cyc: "spec_cycle c [b] = (None, c @ [b])"
      using spec_cycle_small [OF small] None by simp
    have "fst (spec_run (map (\<lambda>b. [b]) bs) (c @ [b])) = frames_of ((c @ [b]) @ bs)"
      using Cons.IH [OF None] Cons.prems(2) by simp
    then show ?thesis using cyc by (simp add: case_prod_unfold)
  next
    case (Some ij)
    obtain i j where ij: "ij = (i, j)" by (cases ij)
    have sc: "spec_scan (c @ [b]) = Some (i, j)" using Some ij by simp
    have j2: "j + 2 = length c + 1" using spec_scan_snoc [OF Cons.prems(1) sc] .
    let ?f = "take (j + 2 - i) (drop i (c @ [b]))"
    have cyc: "spec_cycle c [b] = (Some ?f, [])"
      using spec_cycle_small [OF small] sc j2 by simp
    have ih: "fst (spec_run (map (\<lambda>b. [b]) bs) []) = frames_of ([] @ bs)"
      using Cons.IH [OF spec_scan_Nil] Cons.prems(2) by simp
    have sc': "spec_scan ((c @ [b]) @ bs) = Some (i, j)" using sc by (rule spec_scan_append)
    have "i + 2 \<le> j" using spec_scan_bounds [OF sc] by simp
    then have "i + (j + 2 - i) \<le> length (c @ [b])" using j2 by simp
    then have e1: "take (j + 2 - i) (drop i ((c @ [b]) @ bs)) = ?f" by (rule take_drop_prefix)
    have e2: "drop (j + 2) ((c @ [b]) @ bs) = bs" using j2 by simp
    have "frames_of ((c @ [b]) @ bs) =
        take (j + 2 - i) (drop i ((c @ [b]) @ bs)) # frames_of (drop (j + 2) ((c @ [b]) @ bs))"
      by (subst frames_of.simps) (simp only: sc' option.case prod.case)
    then have fr: "frames_of ((c @ [b]) @ bs) = ?f # frames_of bs" unfolding e1 e2 .
    have "fst (spec_run (map (\<lambda>b. [b]) (b # bs)) c) = ?f # frames_of bs"
      using cyc ih by (simp add: case_prod_unfold)
    also have "\<dots> = frames_of (c @ b # bs)" using fr by simp
    finally show ?thesis .
  qed
qed

lemma idle_run:
  assumes "length c \<le> unat MAX_JPEG_SIZE - 1024"
  shows "fst (spec_run (replicate n []) c) = take n (frames_of c)"
  using assms
proof (induction n arbitrary: c)
  case 0
  then show ?case by simp
next
  case (Suc n)
  have small: "length c + length ([] :: byte list) \<le> unat MAX_JPEG_SIZE - 1024"
    using Suc.prems by simp
  show ?case
  proof (cases "spec_scan c")
    case None
    then have cyc: "spec_cycle c [] = (None, c)" using spec_cycle_small [OF small] by simp
    have "frames_of c = []" using None by (simp add: frames_of.simps [of c])
    then show ?thesis using cyc Suc.IH [OF Suc.prems] by (simp add: case_prod_unfold)
  next
    case (Some ij)
    obtain i j where ij: "ij = (i, j)" by (cases ij)
    let ?f = "take (j + 2 - i) (drop i c)"
    have cyc: "spec_cycle c [] = (Some ?f, drop (j + 2) c)"
      using spec_cycle_small [OF small] Some ij by simp
    have "length (drop (j + 2) c) \<le> unat MAX_JPEG_SIZE - 1024" using Suc.prems by simp
    then have ih: "fst (spec_run (replicate n []) (drop (j + 2) c))
        = take n (frames_of (drop (j + 2) c))" by (rule Suc.IH)
    have "frames_of c = ?f # frames_of (drop (j + 2) c)"
      using Some ij by (simp add: frames_of.simps [of c])
    then show ?thesis using cyc ih by (simp add: case_prod_unfold)
  qed
qed

lemma chunk_run:
  assumes "length c + length bs \<le> unat MAX_JPEG_SIZE - 1024" "length c + length bs \<le> Suc n"
  shows "fst (spec_run (bs # replicate n []) c) = frames_of (c @ bs)"
proof -
  have all: "take (Suc n) (frames_of (c @ bs)) = frames_of (c @ bs)"
    using frames_of_length [of "c @ bs"] assms(2) by simp
  show ?thesis
  proof (cases "spec_scan (c @ bs)")
    case None
    then have cyc: "spec_cycle c bs = (None, c @ bs)"
      using spec_cycle_small [OF assms(1)] by simp
    have f: "frames_of (c @ bs) = []" using None by (simp add: frames_of.simps [of "c @ bs"])
    have "fst (spec_run (replicate n []) (c @ bs)) = take n (frames_of (c @ bs))"
      using idle_run [of "c @ bs" n] assms(1) by simp
    then show ?thesis using cyc f by (simp add: case_prod_unfold)
  next
    case (Some ij)
    obtain i j where ij: "ij = (i, j)" by (cases ij)
    let ?f = "take (j + 2 - i) (drop i (c @ bs))"
    let ?r = "drop (j + 2) (c @ bs)"
    have cyc: "spec_cycle c bs = (Some ?f, ?r)"
      using spec_cycle_small [OF assms(1)] Some ij by simp
    have "length ?r \<le> unat MAX_JPEG_SIZE - 1024" using assms(1) by simp
    then have ih: "fst (spec_run (replicate n []) ?r) = take n (frames_of ?r)"
      by (rule idle_run)
    have f: "frames_of (c @ bs) = ?f # frames_of ?r"
      using Some ij by (simp add: frames_of.simps [of "c @ bs"])
    have "fst (spec_run (bs # replicate n []) c) = ?f # take n (frames_of ?r)"
      using cyc ih by (simp add: case_prod_unfold)
    also have "\<dots> = take (Suc n) (frames_of (c @ bs))" using f by simp
    finally show ?thesis using all by simp
  qed
qed

lemma steady_deliver: "length bs < 2 ^ 31 \<Longrightarrow> steady (deliver bs)"
  by (simp add: steady_def deliver_def idle_env_def)

lemma steady_idle: "steady idle_env"
  by (simp add: steady_def idle_env_def)

lemma incoming_deliver: "incoming (deliver bs) = bs" "incoming idle_env = []"
  by (simp_all add: deliver_def idle_env_def)

lemma bytewise_steady: "\<forall>e\<in>set (bytewise bs). steady e"
  by (auto simp: bytewise_def intro!: steady_deliver)

lemma bytewise_incoming: "map incoming (bytewise bs) = map (\<lambda>b. [b]) bs"
  by (simp add: bytewise_def incoming_deliver comp_def)

text \<open>
  Claim C2, as amended. Take a connected session whose buffer holds no complete frame (as
  after accepting a client, when it is empty) and a byte sequence that, together with
  what is buffered, stays within \<open>MAX_JPEG_SIZE - 1024\<close> bytes. Delivering the bytes one
  per drive cycle hands the decoder exactly the frames, in the same order, that
  delivering them all in the first cycle and running at least as many further cycles as
  there are bytes hands it. Neither run meets an access out of bounds.
\<close>

theorem chunking_equivalence:
  assumes "client s" and "buffer_inv s" and "spec_scan (content s) = None"
      and "length (content s) + length bs \<le> unat MAX_JPEG_SIZE - 1024"
      and "\<forall>e\<in>set es1. steady e" and "map incoming es1 = map (\<lambda>b. [b]) bs"
      and "steady e0" and "incoming e0 = bs"
      and "\<forall>e\<in>set idles. steady e \<and> incoming e = []"
      and "length (content s) + length bs \<le> Suc (length idles)"
  shows "\<exists>frs s1 s2. run es1 s = Inr (frs, s1) \<and> run (e0 # idles) s = Inr (frs, s2) \<and>
           frs = frames_of (content s @ bs)"
proof -
  obtain s1 where r1: "run es1 s = Inr (fst (spec_run (map incoming es1) (content s)), s1)"
    using run_spec [OF assms(5,1,2)] by blast
  have st2: "\<forall>e\<in>set (e0 # idles). steady e" using assms(7,9) by simp
  obtain s2 where r2: "run (e0 # idles) s
       = Inr (fst (spec_run (map incoming (e0 # idles)) (content s)), s2)"
    using run_spec [OF st2 assms(1,2)] by blast
  have "map incoming idles = replicate (length idles) []"
    using assms(9) by (simp add: map_replicate_const [symmetric] cong: map_cong)
  then have m2: "map incoming (e0 # idles) = bs # replicate (length idles) []"
    using assms(8) by simp
  have f1: "fst (spec_run (map incoming es1) (content s)) = frames_of (content s @ bs)"
    unfolding assms(6) using assms(3,4) by (rule bytes_run)
  have f2: "fst (spec_run (map incoming (e0 # idles)) (content s)) = frames_of (content s @ bs)"
    unfolding m2 using assms(4,10) by (rule chunk_run)
  show ?thesis using r1 r2 f1 f2 by auto
qed


theorem chunking_equivalence_witness:
  "client (initial\<lparr>client := True\<rparr>) \<and> buffer_inv (initial\<lparr>client := True\<rparr>) \<and>
   spec_scan (content (initial\<lparr>client := True\<rparr>)) = None \<and>
   (\<exists>s1 s2.
      run (bytewise [0xAB, 0xFF, 0xD8, 0x01, 0xFF, 0xD9, 0xFF, 0xD8, 0x02, 0xFF, 0xD9, 0xCD])
        (initial\<lparr>client := True\<rparr>)
        = Inr ([[0xFF, 0xD8, 0x01, 0xFF, 0xD9], [0xFF, 0xD8, 0x02, 0xFF, 0xD9]], s1) \<and>
      run (deliver [0xAB, 0xFF, 0xD8, 0x01, 0xFF, 0xD9, 0xFF, 0xD8, 0x02, 0xFF, 0xD9, 0xCD]
             # replicate 12 idle_env)
        (initial\<lparr>client := True\<rparr>)
        = Inr ([[0xFF, 0xD8, 0x01, 0xFF, 0xD9], [0xFF, 0xD8, 0x02, 0xFF, 0xD9]], s2))"
proof -
  let ?s = "initial\<lparr>client := True\<rparr>"
  let ?B = "[0xAB, 0xFF, 0xD8, 0x01, 0xFF, 0xD9, 0xFF, 0xD8, 0x02, 0xFF, 0xD9, 0xCD] :: byte list"
  have c: "content ?s = []" by (simp add: content_def initial_def)
  have h1: "client ?s" by simp
  have h2: "buffer_inv ?s" by (simp add: buffer_inv_def initial_def MAX_JPEG_SIZE_def)
  have h3: "spec_scan (content ?s) = None" unfolding c by (rule spec_scan_Nil)
  have h4: "length (content ?s) + length ?B \<le> unat MAX_JPEG_SIZE - 1024"
    unfolding c by (simp add: unat_MAX)
  have h5: "\<forall>e\<in>set (bytewise ?B). steady e" by (rule bytewise_steady)
  have h6: "map incoming (bytewise ?B) = map (\<lambda>b. [b]) ?B" by (rule bytewise_incoming)
  have h7: "steady (deliver ?B)" by (rule steady_deliver) simp
  have h8: "incoming (deliver ?B) = ?B" by (rule incoming_deliver)
  have h9: "\<forall>e\<in>set (replicate 12 idle_env). steady e \<and> incoming e = []"
    by (simp add: steady_idle incoming_deliver)
  have h10: "length (content ?s) + length ?B \<le> Suc (length (replicate 12 idle_env))"
    unfolding c by simp
  have f: "frames_of (content ?s @ ?B)
      = [[0xFF, 0xD8, 0x01, 0xFF, 0xD9], [0xFF, 0xD8, 0x02, 0xFF, 0xD9]]"
    unfolding c by (simp add: frames_of.simps spec_scan_def)
  show ?thesis
    using chunking_equivalence [OF h1 h2 h3 h4 h5 h6 h7 h8 h9 h10] h1 h2 h3 unfolding f
    by blast
qed

lemma spec_find_marker_absent: "m \<notin> set xs \<Longrightarrow> spec_find_marker m xs = None"
proof (cases "spec_find_marker m xs")
  case None
  then show ?thesis .
next
  case (Some i)
  assume n: "m \<notin> set xs"
  have "i + 1 < length xs" "xs ! (i + 1) = m"
    using Some spec_find_marker_Some [of m xs i] by blast+
  then have "m \<in> set xs" using nth_mem by blast
  with n show ?thesis by simp
qed

lemma spec_scan_no_eoi: "0xD9 \<notin> set xs \<Longrightarrow> spec_scan xs = None"
proof -
  assume n: "0xD9 \<notin> set xs"
  have "0xD9 \<notin> set (drop k xs)" for k using n in_set_dropD by fast
  then have "spec_find_marker 0xD9 (drop k xs) = None" for k by (rule spec_find_marker_absent)
  then show ?thesis by (simp add: spec_scan_def split: option.splits)
qed

lemma spec_find_marker_skip:
  "a \<noteq> 0xFF \<Longrightarrow> spec_find_marker m (a # xs) = map_option Suc (spec_find_marker m xs)"
  by (cases xs) simp_all

lemma spec_find_marker_zeros:
  "a \<noteq> 0xFF \<Longrightarrow> spec_find_marker m (replicate n a @ [0xFF, m]) = Some n"
  by (induction n) (simp_all add: spec_find_marker_skip)

lemma no_eoi_run:
  assumes "0xD9 \<notin> set (c @ bs)" "length c + length bs \<le> unat MAX_JPEG_SIZE - 1024"
  shows "spec_run (map (\<lambda>b. [b]) bs) c = ([], c @ bs)"
  using assms
proof (induction bs arbitrary: c)
  case Nil
  then show ?case by simp
next
  case (Cons b bs)
  have small: "length c + length [b] \<le> unat MAX_JPEG_SIZE - 1024" using Cons.prems(2) by simp
  have "0xD9 \<notin> set (c @ [b])" using Cons.prems(1) by simp
  then have "spec_scan (c @ [b]) = None" by (rule spec_scan_no_eoi)
  then have cyc: "spec_cycle c [b] = (None, c @ [b])"
    using spec_cycle_small [OF small] by simp
  have "spec_run (map (\<lambda>b. [b]) bs) (c @ [b]) = ([], (c @ [b]) @ bs)"
    using Cons.IH [of "c @ [b]"] Cons.prems by simp
  then show ?case using cyc by simp
qed

lemma spec_run_append:
  "spec_run (xs @ ys) c =
     (fst (spec_run xs c) @ fst (spec_run ys (snd (spec_run xs c))),
      snd (spec_run ys (snd (spec_run xs c))))"
  by (induction xs arbitrary: c) (simp_all add: case_prod_unfold)

lemma long_frame_length: "length long_frame = 101379"
  by (simp add: long_frame_def)

lemma long_frame_scan: "spec_scan long_frame = Some (0, 101377)"
proof -
  have s: "spec_find_marker 0xD8 long_frame = Some 0" by (simp add: long_frame_def)
  have "drop (0 + 2) long_frame = replicate 101375 0 @ [0xFF, 0xD9]"
    by (simp add: long_frame_def)
  then have "spec_find_marker 0xD9 (drop (0 + 2) long_frame) = Some 101375"
    using spec_find_marker_zeros [of 0 "0xD9" 101375] by simp
  then show ?thesis using s by (simp add: spec_scan_def)
qed

lemma long_frame_chunk: "spec_run [long_frame, []] [] = ([long_frame], [])"
proof -
  have "take (unat MAX_JPEG_SIZE - length ([] :: byte list)) long_frame = long_frame"
    by (simp add: unat_MAX long_frame_length)
  then have "spec_cycle [] long_frame = (Some long_frame, [])"
    using long_frame_scan by (simp add: spec_cycle_def Let_def long_frame_length)
  moreover have "spec_cycle [] [] = (None, [])"
    by (simp add: spec_cycle_def spec_scan_Nil)
  ultimately show ?thesis by simp
qed

lemma long_frame_split:
  "long_frame = ([0xFF, 0xD8] @ replicate 101374 0) @ [0, 0xFF, 0xD9]"
proof -
  have "replicate (101374 + 1) (0 :: byte) = replicate 101374 0 @ replicate 1 0"
    by (rule replicate_add)
  then have "replicate 101375 (0 :: byte) = replicate 101374 0 @ [0]" by simp
  then show ?thesis by (simp add: long_frame_def)
qed

lemma long_frame_bytes: "spec_run (map (\<lambda>b. [b]) long_frame) [] = ([], [0xFF, 0xD9])"
proof -
  define A :: "byte list" where "A = [0xFF, 0xD8] @ replicate 101374 0"
  have la: "length A = 101376" by (simp add: A_def)
  have "0xD9 \<notin> set ([] @ A)" by (simp add: A_def)
  moreover have "length ([] :: byte list) + length A \<le> unat MAX_JPEG_SIZE - 1024"
    by (simp add: unat_MAX la)
  ultimately have "spec_run (map (\<lambda>b. [b]) A) [] = ([], [] @ A)" by (rule no_eoi_run)
  then have a: "spec_run (map (\<lambda>b. [b]) A) [] = ([], A)" by simp
  have "0xD9 \<notin> set (A @ [0])" by (simp add: A_def)
  then have "spec_scan (A @ [0]) = None" by (rule spec_scan_no_eoi)
  moreover have "take (unat MAX_JPEG_SIZE - length A) [0 :: byte] = [0]"
    unfolding la by (simp add: unat_MAX)
  ultimately have c1: "spec_cycle A [0] = (None, [])"
    unfolding spec_cycle_def Let_def by (simp add: unat_MAX la)
  have c2: "spec_cycle [] [0xFF] = (None, [0xFF])"
    by (simp add: spec_cycle_def spec_scan_def unat_MAX)
  have c3: "spec_cycle [0xFF] [0xD9] = (None, [0xFF, 0xD9])"
    by (simp add: spec_cycle_def spec_scan_def unat_MAX)
  have b: "spec_run [[0], [0xFF], [0xD9]] A = ([], [0xFF, 0xD9])"
    using c1 c2 c3 by simp
  have lf: "long_frame = A @ [0, 0xFF, 0xD9]" unfolding A_def by (rule long_frame_split)
  have m: "map (\<lambda>b. [b]) long_frame = map (\<lambda>b. [b]) A @ [[0], [0xFF], [0xD9]]"
    unfolding lf by simp
  show ?thesis unfolding m spec_run_append a fst_conv snd_conv b by simp
qed

text \<open>
  A frame of 101379 bytes, longer than \<open>MAX_JPEG_SIZE - 1024\<close> and shorter than
  \<open>MAX_JPEG_SIZE\<close>, on a fresh connection. Delivered in one piece it is extracted in the
  first cycle. Delivered one byte per cycle, the buffer is reset by the overflow check
  when it holds 101377 bytes of it, and no frame is ever extracted.
\<close>

theorem chunking_counterexample:
  "map_sum id fst (run [deliver long_frame, idle_env] (initial\<lparr>client := True\<rparr>))
     = Inr [long_frame] \<and>
   map_sum id fst (run (bytewise long_frame) (initial\<lparr>client := True\<rparr>)) = Inr []"
proof -
  let ?s = "initial\<lparr>client := True\<rparr>"
  have c: "content ?s = []" by (simp add: content_def initial_def)
  have h1: "client ?s" by simp
  have h2: "buffer_inv ?s" by (simp add: buffer_inv_def initial_def MAX_JPEG_SIZE_def)
  have "steady (deliver long_frame)" by (rule steady_deliver) (simp add: long_frame_length)
  then have st: "\<forall>e\<in>set [deliver long_frame, idle_env]. steady e" by (simp add: steady_idle)
  have m: "map incoming [deliver long_frame, idle_env] = [long_frame, []]"
    by (simp add: incoming_deliver)
  obtain s1 where "run [deliver long_frame, idle_env] ?s
      = Inr (fst (spec_run (map incoming [deliver long_frame, idle_env]) (content ?s)), s1)"
    using run_spec [OF st h1 h2] by blast
  then have r1: "run [deliver long_frame, idle_env] ?s = Inr ([long_frame], s1)"
    unfolding m c long_frame_chunk by simp
  obtain s2 where "run (bytewise long_frame) ?s
      = Inr (fst (spec_run (map incoming (bytewise long_frame)) (content ?s)), s2)"
    using run_spec [OF bytewise_steady h1 h2] by blast
  then have r2: "run (bytewise long_frame) ?s = Inr ([], s2)"
    unfolding bytewise_incoming c long_frame_bytes by simp
  show ?thesis unfolding r1 r2 by simp
qed

end
